theory Spec2Isabelle
  imports Main "HOL-Library.AList" "HOL-Library.Multiset"
begin

section \<open>Data model\<close>

text \<open>
  The seed generator works on the entity metadata handed over by the schema provider
  (\<^verbatim>\<open>dmmf.datamodel.models\<close>). A field descriptor carries the properties the
  code reads: \<^verbatim>\<open>name\<close>, \<^verbatim>\<open>kind\<close> (\<^verbatim>\<open>"scalar"\<close>, \<^verbatim>\<open>"object"\<close>, ...),
  \<^verbatim>\<open>type\<close>, the boolean flags, and the two optional name lists of a relation
  (\<^verbatim>\<open>undefined\<close> is \<open>None\<close>).

  JavaScript objects used as dictionaries (\<^verbatim>\<open>graph\<close>, \<^verbatim>\<open>inDegree\<close>,
  \<^verbatim>\<open>modelDataMap\<close>, \<^verbatim>\<open>data\<close>, \<^verbatim>\<open>connect\<close>) are association lists in
  insertion order: \<open>AList.update\<close> overwrites the value of an existing key in place and
  appends a new key at the end, which is the behaviour of a property assignment, and
  \<open>map fst\<close> is \<^verbatim>\<open>Object.keys\<close>. Entity-type and field names are identifiers (they
  start with a letter), so no key is an array index and no key shadows a member of
  \<^verbatim>\<open>Object.prototype\<close>. A \<^verbatim>\<open>Set\<close> is the list of its elements in insertion order.
\<close>

record field =
  field_name :: string
  field_kind :: string
  field_type :: string
  isList :: bool
  isRequired :: bool
  isId :: bool
  isUnique :: bool
  isReadOnly :: bool
  relationFromFields :: "string list option"
  relationToFields :: "string list option"

record model =
  model_name :: string
  model_fields :: "field list"

record node =
  node_name :: string
  dependsOn :: "string list"
  referencedBy :: "string list"

type_synonym graph = "(string \<times> node) list"

definition set_add :: "'a \<Rightarrow> 'a list \<Rightarrow> 'a list" where
  "set_add x xs = (if x \<in> set xs then xs else xs @ [x])"

section \<open>Dependency graph builder\<close>

text \<open>
  \<^verbatim>\<open>buildDependencyGraph\<close>: the first loop creates one empty node per model name, the
  second loop wires an edge for every field with \<^verbatim>\<open>kind === "object"\<close> that is not a
  list and is required, when the target is a key of the graph. The two updates of the
  second loop mutate nodes that are in the graph (the first loop has created the node of
  every model, see \<open>key_init_graph\<close> and \<open>key_wire_models\<close> below, and the target
  has just been looked up), so they are written with \<open>AList.map_entry\<close>.
\<close>

definition empty_node :: "string \<Rightarrow> node" where
  "empty_node n = \<lparr>node_name = n, dependsOn = [], referencedBy = []\<rparr>"

definition init_graph :: "model list \<Rightarrow> graph" where
  "init_graph models =
     fold (\<lambda>m g. AList.update (model_name m) (empty_node (model_name m)) g) models []"

definition wire_field :: "string \<Rightarrow> field \<Rightarrow> graph \<Rightarrow> graph" where
  "wire_field mname f g =
     (if field_kind f = ''object'' \<and> \<not> isList f \<and> isRequired f then
        (let dependsOnModel = field_type f in
         case map_of g dependsOnModel of
           None \<Rightarrow> g
         | Some _ \<Rightarrow>
             AList.map_entry dependsOnModel
               (\<lambda>n. n\<lparr>referencedBy := set_add mname (referencedBy n)\<rparr>)
               (AList.map_entry mname
                 (\<lambda>n. n\<lparr>dependsOn := set_add dependsOnModel (dependsOn n)\<rparr>) g))
      else g)"

definition wire_model :: "model \<Rightarrow> graph \<Rightarrow> graph" where
  "wire_model m g = fold (wire_field (model_name m)) (model_fields m) g"

definition buildDependencyGraph :: "model list \<Rightarrow> graph" where
  "buildDependencyGraph models = fold wire_model models (init_graph models)"

section \<open>Topological orderer\<close>

text \<open>
  \<^verbatim>\<open>topologicalSort\<close>. \<open>relax\<close> is the inner \<^verbatim>\<open>for (const ref of ...referencedBy)\<close>
  loop: it decrements \<^verbatim>\<open>inDegree[ref]\<close> and pushes \<^verbatim>\<open>ref\<close> when the counter is
  exactly zero. A \<^verbatim>\<open>ref\<close> that is no key of \<^verbatim>\<open>inDegree\<close> would get the counter
  \<^verbatim>\<open>NaN\<close>, which is neither \<^verbatim>\<open>=== 0\<close> nor \<^verbatim>\<open>> 0\<close>: it is never pushed and never
  listed among the remaining names, so the model leaves the dictionary as it is.
  \<open>kahn\<close> is the \<^verbatim>\<open>while (queue.length)\<close> loop; it returns the final counters too,
  since the cycle branch reads them. Every name in the queue is a key of the graph
  (\<open>kahn_inv_init\<close> and \<open>kahn_inv_relax\<close> below), so \<^verbatim>\<open>graph[current]\<close> is a node;
  \<open>refs_of\<close> gives the empty list for any other name.
\<close>

type_synonym indegree = "(string \<times> int) list"

fun relax :: "string list \<Rightarrow> indegree \<Rightarrow> string list \<Rightarrow> indegree \<times> string list" where
  "relax [] inDegree queue = (inDegree, queue)"
| "relax (ref # refs) inDegree queue =
     (let inDegree' = AList.map_entry ref (\<lambda>d. d - 1) inDegree in
      relax refs inDegree'
        (if map_of inDegree' ref = Some 0 then queue @ [ref] else queue))"

definition refs_of :: "graph \<Rightarrow> string \<Rightarrow> string list" where
  "refs_of g current = (case map_of g current of None \<Rightarrow> [] | Some n \<Rightarrow> referencedBy n)"

definition positive :: "indegree \<Rightarrow> nat" where
  "positive inDegree = length (filter (\<lambda>p. 0 < snd p) inDegree)"

lemma positive_map_entry_le:
  "positive (AList.map_entry r (\<lambda>d. d - 1) deg) \<le> positive deg"
  by (induction deg) (auto simp: positive_def)

lemma positive_map_entry_zero:
  "map_of (AList.map_entry r (\<lambda>d. d - 1) deg) r = Some 0
   \<Longrightarrow> Suc (positive (AList.map_entry r (\<lambda>d. d - 1) deg)) = positive deg"
  by (induction deg) (auto simp: positive_def split: if_splits)

lemma relax_measure:
  "relax refs deg q = (deg', q') \<Longrightarrow> positive deg' + length q' \<le> positive deg + length q"
proof (induction refs arbitrary: deg q)
  case Nil
  then show ?case by simp
next
  case (Cons r refs)
  let ?d = "AList.map_entry r (\<lambda>d. d - 1) deg"
  show ?case
  proof (cases "map_of ?d r = Some 0")
    case True
    with Cons.prems have "relax refs ?d (q @ [r]) = (deg', q')"
      by (simp add: Let_def)
    from Cons.IH [OF this] positive_map_entry_zero [OF True] show ?thesis
      by simp
  next
    case False
    with Cons.prems have "relax refs ?d q = (deg', q')"
      by (simp add: Let_def)
    from Cons.IH [OF this] positive_map_entry_le [of r deg] show ?thesis
      by simp
  qed
qed

function kahn :: "graph \<Rightarrow> indegree \<Rightarrow> string list \<Rightarrow> string list \<Rightarrow> indegree \<times> string list" where
  "kahn g inDegree [] sortedNames = (inDegree, sortedNames)"
| "kahn g inDegree (current # queue) sortedNames =
     (case relax (refs_of g current) inDegree queue of
        (inDegree', queue') \<Rightarrow> kahn g inDegree' queue' (sortedNames @ [current]))"
  by pat_completeness auto
termination
proof (relation "measure (\<lambda>(g, deg, q, s). positive deg + length q)", goal_cases)
  case 1
  show ?case by simp
next
  case (2 g inDegree current queue sortedNames x1 x2)
  then have "relax (refs_of g current) inDegree queue = (x1, x2)"
    by simp
  from relax_measure [OF this] show ?case
    by simp
qed

definition init_inDegree :: "graph \<Rightarrow> indegree" where
  "init_inDegree g = map (\<lambda>p. (fst p, int (length (dependsOn (snd p))))) g"

definition init_queue :: "graph \<Rightarrow> string list" where
  "init_queue g =
     filter (\<lambda>m. map_of (init_inDegree g) m = Some 0) (map fst (init_inDegree g))"

definition topologicalSort :: "graph \<Rightarrow> string list" where
  "topologicalSort g =
     (let (inDegree, sortedNames) = kahn g (init_inDegree g) (init_queue g) []
      in if length sortedNames < length (map fst g)
         then sortedNames @
              filter (\<lambda>m. case map_of inDegree m of None \<Rightarrow> False | Some d \<Rightarrow> 0 < d)
                (map fst inDegree)
         else sortedNames)"

section \<open>Values, run state and collaborators\<close>

text \<open>
  \<open>jsval\<close> is the fragment of JavaScript values the generator builds or reads. A
  number is a decimal \<open>JNum m k\<close> standing for \<open>m / 10 ^ k\<close>, a \<^verbatim>\<open>Date\<close> holds its
  time value in milliseconds (\<open>None\<close> for an invalid date), an object is an
  association list in insertion order. A created record is the object returned by the
  persistence client; reading a property it lacks gives \<^verbatim>\<open>undefined\<close>.
\<close>

datatype jsval =
    JUndefined
  | JNull
  | JBool bool
  | JNum int nat
  | JStr string
  | JDate "int option"
  | JList "jsval list"
  | JObj "(string \<times> jsval) list"

type_synonym obj = "(string \<times> jsval) list"

definition get_prop :: "obj \<Rightarrow> string \<Rightarrow> jsval" where
  "get_prop r k = (case map_of r k of None \<Rightarrow> JUndefined | Some v \<Rightarrow> v)"

text \<open>
  An exception is either the \<^verbatim>\<open>TypeError\<close> raised by the generator's own code when it
  reads a property of \<^verbatim>\<open>undefined\<close>, or whatever a collaborator throws.
\<close>

datatype error = TypeError | Failure string

record entry =
  entry_model :: model
  createdRecords :: "obj list"
  created :: bool

type_synonym modelDataMap = "(string \<times> entry) list"

text \<open>
  Everything outside the generator is reached through the state \<open>'w\<close> of the outside
  world and the operations below, each taking the world and returning the new one: the
  persistence client (\<^verbatim>\<open>prisma[modelName].create\<close>, \<^verbatim>\<open>prisma[modelName].update\<close>,
  \<^verbatim>\<open>prisma.$disconnect\<close>), the schema provider (\<^verbatim>\<open>loadDMMF\<close>), the eight characters
  taken from \<^verbatim>\<open>Math.random()\<close>, the clock read by \<^verbatim>\<open>new Date()\<close>, and the time value
  that the \<^verbatim>\<open>Date\<close> constructor gives to a value that is not a \<^verbatim>\<open>Date\<close>. The
  operations are arbitrary functions, so a statement about every \<open>env\<close> is a statement
  about every behaviour of the collaborators. Console output is not modelled.
\<close>

record 'w env =
  create_op :: "string \<Rightarrow> obj \<Rightarrow> 'w \<Rightarrow> (error + obj) \<times> 'w"
  update_op :: "string \<Rightarrow> jsval \<Rightarrow> obj \<Rightarrow> 'w \<Rightarrow> (error + obj) \<times> 'w"
  disconnect_op :: "'w \<Rightarrow> (error + unit) \<times> 'w"
  load_op :: "string \<Rightarrow> 'w \<Rightarrow> (error + model list) \<times> 'w"
  random_op :: "'w \<Rightarrow> string \<times> 'w"
  now_op :: "'w \<Rightarrow> int \<times> 'w"
  date_of :: "jsval \<Rightarrow> int option"

section \<open>Scalar value synthesizer\<close>

definition generateFakeValueForField :: "'w env \<Rightarrow> field \<Rightarrow> 'w \<Rightarrow> jsval \<times> 'w" where
  "generateFakeValueForField env f w =
     (if isList f then (JList [], w)
      else if field_type f = ''String'' then
        (if isId f then (JUndefined, w)
         else if isUnique f then
           (case random_op env w of (r, w') \<Rightarrow> (JStr (''unique_'' @ r), w'))
         else (JStr (''fake_'' @ field_name f), w))
      else if field_type f = ''Int'' then (JNum 123 0, w)
      else if field_type f = ''Float'' then (JNum 123 2, w)
      else if field_type f = ''Boolean'' then (JBool False, w)
      else if field_type f = ''DateTime'' then
        (case now_op env w of (t, w') \<Rightarrow> (JDate (Some t), w'))
      else if field_type f = ''Json'' then (JObj [(''example'', JStr ''data'')], w)
      else if isRequired f then (JStr (''fake_'' @ field_name f), w)
      else (JNull, w))"

section \<open>Record materializer\<close>

subsection \<open>Payload assembly\<close>

text \<open>
  \<^verbatim>\<open>buildCreationData\<close>. \<open>scalar_step\<close> is the body of the first loop and
  \<open>relation_step\<close> the body of the second. \<open>connect_to\<close> is the code that follows
  \<^verbatim>\<open>data[field.name] = { connect: {} }\<close>: with exactly one name in
  \<^verbatim>\<open>relationToFields\<close> it copies that key, otherwise it calls
  \<^verbatim>\<open>relationToFields.forEach\<close>, which raises when the list is \<^verbatim>\<open>undefined\<close>.
  A non-empty array and an empty array are both truthy, so \<^verbatim>\<open>f.relationFromFields &&\<close>
  only tests for \<open>Some\<close>.
\<close>

definition isForeignKey :: "model \<Rightarrow> field \<Rightarrow> bool" where
  "isForeignKey m f =
     (\<exists>f' \<in> set (model_fields m).
        field_kind f' = ''object'' \<and>
        (case relationFromFields f' of None \<Rightarrow> False | Some l \<Rightarrow> field_name f \<in> set l))"

definition scalar_step :: "'w env \<Rightarrow> model \<Rightarrow> field \<Rightarrow> obj \<times> 'w \<Rightarrow> obj \<times> 'w" where
  "scalar_step env m f dw =
     (case dw of (data, w) \<Rightarrow>
        if field_kind f = ''scalar'' \<and> \<not> isReadOnly f then
          (if isForeignKey m f then (data, w)
           else (case generateFakeValueForField env f w of
                   (v, w') \<Rightarrow> (AList.update (field_name f) v data, w')))
        else (data, w))"

definition anyFKrequired :: "model \<Rightarrow> string list \<Rightarrow> bool" where
  "anyFKrequired m relationFrom =
     (\<exists>fkFieldName \<in> set relationFrom.
        case find (\<lambda>f. field_name f = fkFieldName) (model_fields m) of
          None \<Rightarrow> False
        | Some fkDef \<Rightarrow> isRequired fkDef)"

definition connect_to :: "string list option \<Rightarrow> obj \<Rightarrow> error + jsval" where
  "connect_to relationTo r =
     (case relationTo of
        None \<Rightarrow> Inl TypeError
      | Some rks \<Rightarrow>
          Inr (JObj [(''connect'',
                 JObj (fold (\<lambda>rk c. AList.update rk (get_prop r rk) c) rks []))]))"

definition relation_step ::
  "modelDataMap \<Rightarrow> string \<Rightarrow> model \<Rightarrow> field \<Rightarrow> error + obj \<Rightarrow> error + obj" where
  "relation_step mdm modelName m f acc =
     (case acc of
        Inl e \<Rightarrow> Inl e
      | Inr data \<Rightarrow>
          if field_kind f \<noteq> ''object'' then Inr data
          else if field_type f = modelName then Inr data
          else if isList f then Inr data
          else (case relationFromFields f of
                  None \<Rightarrow> Inr data
                | Some [] \<Rightarrow> Inr data
                | Some relationFrom \<Rightarrow>
                    (case map_of mdm (field_type f) of
                       None \<Rightarrow>
                         if anyFKrequired m relationFrom
                         then Inr (AList.update (field_name f) JUndefined data)
                         else Inr data
                     | Some relatedModelData \<Rightarrow>
                         (case createdRecords relatedModelData of
                            [] \<Rightarrow> Inr (AList.update (field_name f) JUndefined data)
                          | relatedRecord # _ \<Rightarrow>
                              (case connect_to (relationToFields f) relatedRecord of
                                 Inl e \<Rightarrow> Inl e
                               | Inr c \<Rightarrow> Inr (AList.update (field_name f) c data))))))"

definition buildCreationData ::
  "'w env \<Rightarrow> modelDataMap \<Rightarrow> string \<Rightarrow> 'w \<Rightarrow> (error + obj) \<times> 'w" where
  "buildCreationData env mdm modelName w =
     (case map_of mdm modelName of
        None \<Rightarrow> (Inl TypeError, w)
      | Some e \<Rightarrow>
          (let m = entry_model e in
           case fold (scalar_step env m) (model_fields m) ([], w) of
             (data, w') \<Rightarrow>
               (fold (relation_step mdm modelName m) (model_fields m) (Inr data), w')))"

subsection \<open>One creation attempt\<close>

text \<open>
  \<^verbatim>\<open>tryCreateOneRecord\<close>. The payload is assembled before the \<^verbatim>\<open>try\<close> block, so an
  exception of \<open>buildCreationData\<close> propagates; a failure of the persistence client's
  \<^verbatim>\<open>create\<close> is caught and reported as \<^verbatim>\<open>false\<close>.
\<close>

definition push_record :: "string \<Rightarrow> obj \<Rightarrow> modelDataMap \<Rightarrow> modelDataMap" where
  "push_record modelName r mdm =
     AList.map_entry modelName (\<lambda>e. e\<lparr>createdRecords := createdRecords e @ [r]\<rparr>) mdm"

definition tryCreateOneRecord ::
  "'w env \<Rightarrow> modelDataMap \<Rightarrow> string \<Rightarrow> 'w \<Rightarrow> (error + modelDataMap \<times> bool) \<times> 'w" where
  "tryCreateOneRecord env mdm modelName w =
     (case buildCreationData env mdm modelName w of
        (Inl e, w1) \<Rightarrow> (Inl e, w1)
      | (Inr data, w1) \<Rightarrow>
          (case create_op env modelName data w1 of
             (Inr createdRecord, w2) \<Rightarrow> (Inr (push_record modelName createdRecord mdm, True), w2)
           | (Inl err, w2) \<Rightarrow> (Inr (mdm, False), w2)))"

subsection \<open>The pass loop\<close>

text \<open>
  \<^verbatim>\<open>multiPassCreate\<close>. \<open>attempt\<close> is the body of the inner \<^verbatim>\<open>for\<close> loop, acting on
  the run-state map, the flag \<^verbatim>\<open>createdAlgoNestaPassada\<close> and the world; \<open>one_pass\<close>
  is the inner loop. \<open>passes\<close> is the \<^verbatim>\<open>while (pass <= maxPasses)\<close> loop. Besides
  the result it returns one \<open>pass_result\<close> per pass it started, in order: whether the
  pass created a record, created none, or was left by an exception.
\<close>

datatype pass_result = PassCreated | PassNothing | PassRaised

definition init_modelDataMap :: "model list \<Rightarrow> modelDataMap" where
  "init_modelDataMap models =
     fold (\<lambda>m mdm. AList.update (model_name m)
                     \<lparr>entry_model = m, createdRecords = [], created = False\<rparr> mdm)
       models []"

definition attempt ::
  "'w env \<Rightarrow> string \<Rightarrow> (error + modelDataMap \<times> bool) \<times> 'w
   \<Rightarrow> (error + modelDataMap \<times> bool) \<times> 'w" where
  "attempt env modelName st =
     (case st of
        (Inl e, w) \<Rightarrow> (Inl e, w)
      | (Inr (mdm, createdAlgoNestaPassada), w) \<Rightarrow>
          (case map_of mdm modelName of
             None \<Rightarrow> (Inl TypeError, w)
           | Some e \<Rightarrow>
               if created e then (Inr (mdm, createdAlgoNestaPassada), w)
               else (case tryCreateOneRecord env mdm modelName w of
                       (Inl err, w') \<Rightarrow> (Inl err, w')
                     | (Inr (mdm', success), w') \<Rightarrow>
                         if success
                         then (Inr (AList.map_entry modelName (\<lambda>e. e\<lparr>created := True\<rparr>) mdm',
                                    True), w')
                         else (Inr (mdm', createdAlgoNestaPassada), w'))))"

definition one_pass ::
  "'w env \<Rightarrow> string list \<Rightarrow> modelDataMap \<Rightarrow> 'w \<Rightarrow> (error + modelDataMap \<times> bool) \<times> 'w" where
  "one_pass env sortedModelNames mdm w =
     fold (attempt env) sortedModelNames (Inr (mdm, False), w)"

function passes ::
  "'w env \<Rightarrow> string list \<Rightarrow> int \<Rightarrow> int \<Rightarrow> modelDataMap \<Rightarrow> 'w
   \<Rightarrow> (error + modelDataMap) \<times> 'w \<times> pass_result list" where
  "passes env sortedModelNames maxPasses pass mdm w =
     (if pass \<le> maxPasses then
        (case one_pass env sortedModelNames mdm w of
           (Inl e, w') \<Rightarrow> (Inl e, w', [PassRaised])
         | (Inr (mdm', createdAlgoNestaPassada), w') \<Rightarrow>
             if \<not> createdAlgoNestaPassada then (Inr mdm', w', [PassNothing])
             else (case passes env sortedModelNames maxPasses (pass + 1) mdm' w' of
                     (r, w'', log) \<Rightarrow> (r, w'', PassCreated # log)))
      else (Inr mdm, w, []))"
  by pat_completeness auto
termination
  by (relation "measure (\<lambda>(env, names, maxPasses, pass, mdm, w). nat (maxPasses + 1 - pass))")
    auto

declare passes.simps [simp del]

definition multiPassCreate ::
  "'w env \<Rightarrow> model list \<Rightarrow> int \<Rightarrow> 'w \<Rightarrow> (error + modelDataMap) \<times> 'w \<times> pass_result list" where
  "multiPassCreate env models maxPasses w =
     (let graph = buildDependencyGraph models;
          sortedModelNames = topologicalSort graph
      in passes env sortedModelNames maxPasses 1 (init_modelDataMap models) w)"

subsection \<open>Payload assembly of the variant without a self-relation resolver\<close>

text \<open>
  The repository keeps an earlier variant of the generator whose
  \<^verbatim>\<open>tryCreateOneRecord\<close> assembles the payload itself. It differs from
  \<open>buildCreationData\<close> in two places: the first loop does not leave out foreign-key
  scalars, and the second loop has no test \<^verbatim>\<open>field.type === modelName\<close>.
  \<open>payload_v3\<close> is that assembly, up to the \<^verbatim>\<open>try\<close> block.
\<close>

definition scalar_step_v3 :: "'w env \<Rightarrow> field \<Rightarrow> obj \<times> 'w \<Rightarrow> obj \<times> 'w" where
  "scalar_step_v3 env f dw =
     (case dw of (data, w) \<Rightarrow>
        if field_kind f = ''scalar'' \<and> \<not> isReadOnly f then
          (case generateFakeValueForField env f w of
             (v, w') \<Rightarrow> (AList.update (field_name f) v data, w'))
        else (data, w))"

definition relation_step_v3 ::
  "modelDataMap \<Rightarrow> model \<Rightarrow> field \<Rightarrow> error + obj \<Rightarrow> error + obj" where
  "relation_step_v3 mdm m f acc =
     (case acc of
        Inl e \<Rightarrow> Inl e
      | Inr data \<Rightarrow>
          if field_kind f \<noteq> ''object'' then Inr data
          else if isList f then Inr data
          else (case relationFromFields f of
                  None \<Rightarrow> Inr data
                | Some [] \<Rightarrow> Inr data
                | Some relationFrom \<Rightarrow>
                    (case map_of mdm (field_type f) of
                       None \<Rightarrow>
                         if anyFKrequired m relationFrom
                         then Inr (AList.update (field_name f) JUndefined data)
                         else Inr data
                     | Some relatedModelData \<Rightarrow>
                         (case createdRecords relatedModelData of
                            [] \<Rightarrow>
                              if anyFKrequired m relationFrom
                              then Inr (AList.update (field_name f) JUndefined data)
                              else Inr (AList.update (field_name f) JUndefined data)
                          | firstRecord # _ \<Rightarrow>
                              (case connect_to (relationToFields f) firstRecord of
                                 Inl e \<Rightarrow> Inl e
                               | Inr c \<Rightarrow> Inr (AList.update (field_name f) c data))))))"

definition payload_v3 ::
  "'w env \<Rightarrow> modelDataMap \<Rightarrow> string \<Rightarrow> 'w \<Rightarrow> (error + obj) \<times> 'w" where
  "payload_v3 env mdm modelName w =
     (case map_of mdm modelName of
        None \<Rightarrow> (Inl TypeError, w)
      | Some e \<Rightarrow>
          (let m = entry_model e in
           case fold (scalar_step_v3 env) (model_fields m) ([], w) of
             (data, w') \<Rightarrow> (fold (relation_step_v3 mdm m) (model_fields m) (Inr data), w')))"

section \<open>Self-relation resolver and entry operation\<close>

text \<open>
  \<^verbatim>\<open>isSelfRelationModel\<close> and \<^verbatim>\<open>createAdditionalSelfRelationRecord\<close>.
  \<open>ensure_first\<close> is the guard ``\<^verbatim>\<open>if (createdRecords.length === 0)\<close>'' with its early
  \<^verbatim>\<open>return\<close>: it yields \<open>None\<close> when the function returns there, and the map with its
  first record otherwise (the list is not empty at that point, see
  \<open>tryCreateOneRecord_pushes\<close>; the model raises for an empty one).
  \<open>override_self\<close> overwrites the self-relation field of the payload, and
  \<open>second_record\<close> is the final \<^verbatim>\<open>try\<close> block, whose failures are caught.
  \<open>time_clip\<close> is the range check of the \<^verbatim>\<open>Date\<close> constructor.
\<close>

definition isSelfRelationModel :: "model \<Rightarrow> bool" where
  "isSelfRelationModel m =
     (\<exists>f \<in> set (model_fields m).
        field_kind f = ''object'' \<and> field_type f = model_name m \<and> \<not> isList f)"

definition ensure_first ::
  "'w env \<Rightarrow> modelDataMap \<Rightarrow> string \<Rightarrow> entry \<Rightarrow> 'w
   \<Rightarrow> (error + (modelDataMap \<times> obj) option) \<times> 'w" where
  "ensure_first env mdm modelName e w =
     (case createdRecords e of
        firstRecord # _ \<Rightarrow> (Inr (Some (mdm, firstRecord)), w)
      | [] \<Rightarrow>
          (case tryCreateOneRecord env mdm modelName w of
             (Inl err, w1) \<Rightarrow> (Inl err, w1)
           | (Inr (mdm1, success), w1) \<Rightarrow>
               if \<not> success then (Inr None, w1)
               else (case map_of mdm1 modelName of
                       None \<Rightarrow> (Inl TypeError, w1)
                     | Some e1 \<Rightarrow>
                         (case createdRecords e1 of
                            [] \<Rightarrow> (Inl TypeError, w1)
                          | firstRecord # _ \<Rightarrow> (Inr (Some (mdm1, firstRecord)), w1)))))"

definition override_self :: "string \<Rightarrow> model \<Rightarrow> obj \<Rightarrow> obj \<Rightarrow> error + obj" where
  "override_self modelName m firstRecord data =
     (case find (\<lambda>f. field_kind f = ''object'' \<and> field_type f = modelName \<and> \<not> isList f)
             (model_fields m) of
        None \<Rightarrow> Inr data
      | Some selfRelationField \<Rightarrow>
          (case connect_to (relationToFields selfRelationField) firstRecord of
             Inl err \<Rightarrow> Inl err
           | Inr c \<Rightarrow> Inr (AList.update (field_name selfRelationField) c data)))"

definition time_clip :: "int \<Rightarrow> int option" where
  "time_clip t = (if \<bar>t\<bar> \<le> 8640000000000000 then Some t else None)"

definition second_record ::
  "'w env \<Rightarrow> modelDataMap \<Rightarrow> string \<Rightarrow> obj \<Rightarrow> obj \<Rightarrow> 'w \<Rightarrow> modelDataMap \<times> 'w" where
  "second_record env mdm modelName firstRecord data w =
     (case create_op env modelName data w of
        (Inl err, w1) \<Rightarrow> (mdm, w1)
      | (Inr secondRecord, w1) \<Rightarrow>
          (let firstCreatedAt =
                 (case get_prop firstRecord ''createdAt'' of
                    JDate t \<Rightarrow> t
                  | v \<Rightarrow> date_of env v);
               newCreatedAt =
                 (case firstCreatedAt of None \<Rightarrow> None | Some t \<Rightarrow> time_clip (t - 1000))
           in case update_op env modelName (get_prop secondRecord ''id'')
                     [(''createdAt'', JDate newCreatedAt)] w1 of
                (Inl err, w2) \<Rightarrow> (mdm, w2)
              | (Inr updatedRecord, w2) \<Rightarrow> (push_record modelName updatedRecord mdm, w2)))"

definition createAdditionalSelfRelationRecord ::
  "'w env \<Rightarrow> modelDataMap \<Rightarrow> string \<Rightarrow> 'w \<Rightarrow> (error + modelDataMap) \<times> 'w" where
  "createAdditionalSelfRelationRecord env mdm modelName w =
     (case map_of mdm modelName of
        None \<Rightarrow> (Inl TypeError, w)
      | Some e \<Rightarrow>
          (case ensure_first env mdm modelName e w of
             (Inl err, w1) \<Rightarrow> (Inl err, w1)
           | (Inr None, w1) \<Rightarrow> (Inr mdm, w1)
           | (Inr (Some (mdm1, firstRecord)), w1) \<Rightarrow>
               (case buildCreationData env mdm1 modelName w1 of
                  (Inl err, w2) \<Rightarrow> (Inl err, w2)
                | (Inr data, w2) \<Rightarrow>
                    (case override_self modelName (entry_model e) firstRecord data of
                       Inl err \<Rightarrow> (Inl err, w2)
                     | Inr data' \<Rightarrow>
                         (case second_record env mdm1 modelName firstRecord data' w2 of
                            (mdm2, w3) \<Rightarrow> (Inr mdm2, w3))))))"

text \<open>
  \<^verbatim>\<open>generateSeedData\<close>. \<open>resolve_step\<close> is the body of the \<^verbatim>\<open>for ... in\<close> loop over
  the run-state map and \<open>seed_body\<close> the \<^verbatim>\<open>try\<close> block; the \<^verbatim>\<open>catch\<close> clause logs and
  rethrows. The \<^verbatim>\<open>finally\<close> clause awaits \<^verbatim>\<open>prisma.$disconnect()\<close>: an exception of
  the disconnect replaces the outcome of the \<^verbatim>\<open>try\<close> block.
\<close>

definition resolve_step ::
  "'w env \<Rightarrow> string \<Rightarrow> (error + modelDataMap) \<times> 'w \<Rightarrow> (error + modelDataMap) \<times> 'w" where
  "resolve_step env modelName st =
     (case st of
        (Inl err, w) \<Rightarrow> (Inl err, w)
      | (Inr mdm, w) \<Rightarrow>
          (case map_of mdm modelName of
             None \<Rightarrow> (Inl TypeError, w)
           | Some e \<Rightarrow>
               if isSelfRelationModel (entry_model e) \<and> length (createdRecords e) < 2
               then createAdditionalSelfRelationRecord env mdm modelName w
               else (Inr mdm, w)))"

definition seed_body :: "'w env \<Rightarrow> string \<Rightarrow> 'w \<Rightarrow> (error + modelDataMap) \<times> 'w" where
  "seed_body env seedPath w =
     (case load_op env seedPath w of
        (Inl err, w1) \<Rightarrow> (Inl err, w1)
      | (Inr models, w1) \<Rightarrow>
          (case multiPassCreate env models 5 w1 of
             (Inl err, w2, log) \<Rightarrow> (Inl err, w2)
           | (Inr mdm, w2, log) \<Rightarrow> fold (resolve_step env) (map fst mdm) (Inr mdm, w2)))"

definition generateSeedData :: "'w env \<Rightarrow> string \<Rightarrow> 'w \<Rightarrow> (error + unit) \<times> 'w" where
  "generateSeedData env seedPath w =
     (case seed_body env seedPath w of
        (r, w1) \<Rightarrow>
          (case disconnect_op env w1 of
             (Inl err, w2) \<Rightarrow> (Inl err, w2)
           | (Inr u, w2) \<Rightarrow>
               (case r of Inl err \<Rightarrow> (Inl err, w2) | Inr mdm \<Rightarrow> (Inr (), w2))))"

section \<open>Vocabulary of the properties\<close>

subsection \<open>Graphs and orders\<close>

text \<open>
  \<open>dep_set\<close> and \<open>ref_set\<close> read the two edge sets of a node (empty for a name that is
  no key). \<open>wf_graph\<close> is the data-model invariant of a dependency graph: keys are
  unique, the two sets of every node have no repeated element, and \<open>referencedBy\<close> is
  the inverse of \<open>dependsOn\<close>. \<open>edges\<close> is the relation ``A dependsOn B''.
  \<open>precedes b a xs\<close> says that \<open>a\<close> occurs in \<open>xs\<close> and \<open>b\<close> occurs before the
  first \<open>a\<close>.
\<close>

definition req :: "field \<Rightarrow> bool" where
  "req f = (field_kind f = ''object'' \<and> \<not> isList f \<and> isRequired f)"

definition dep_set :: "graph \<Rightarrow> string \<Rightarrow> string set" where
  "dep_set g a = (case map_of g a of None \<Rightarrow> {} | Some n \<Rightarrow> set (dependsOn n))"

definition ref_set :: "graph \<Rightarrow> string \<Rightarrow> string set" where
  "ref_set g a = (case map_of g a of None \<Rightarrow> {} | Some n \<Rightarrow> set (referencedBy n))"

definition wf_graph :: "graph \<Rightarrow> bool" where
  "wf_graph g =
     (distinct (map fst g) \<and>
      (\<forall>(a, n) \<in> set g.
         distinct (dependsOn n) \<and> distinct (referencedBy n) \<and>
         (\<forall>b \<in> set (dependsOn n). a \<in> ref_set g b) \<and>
         (\<forall>b \<in> set (referencedBy n). a \<in> dep_set g b)))"

definition edges :: "graph \<Rightarrow> (string \<times> string) set" where
  "edges g = (\<Union>(a, n) \<in> set g. {a} \<times> set (dependsOn n))"

definition precedes :: "'a \<Rightarrow> 'a \<Rightarrow> 'a list \<Rightarrow> bool" where
  "precedes b a xs = (a \<in> set xs \<and> b \<in> set (takeWhile (\<lambda>x. x \<noteq> a) xs))"

definition all_empty :: "graph \<Rightarrow> bool" where
  "all_empty g = (\<forall>a n. map_of g a = Some n \<longrightarrow> dependsOn n = [] \<and> referencedBy n = [])"

definition kahn_inv :: "string list \<Rightarrow> indegree \<Rightarrow> string list \<Rightarrow> string list \<Rightarrow> bool" where
  "kahn_inv ks deg q s =
     (map fst deg = ks \<and> distinct (s @ q) \<and> set (s @ q) \<subseteq> set ks \<and>
      (\<forall>a d. map_of deg a = Some d \<longrightarrow> (a \<in> set (s @ q)) = (d \<le> 0)))"

definition kahn_inv2 :: "graph \<Rightarrow> indegree \<Rightarrow> string list \<Rightarrow> bool" where
  "kahn_inv2 g deg s =
     ((\<forall>a n. map_of g a = Some n \<longrightarrow>
          map_of deg a = Some (int (card (set (dependsOn n) - set s)))) \<and>
      (\<forall>a \<in> set s. \<forall>b \<in> dep_set g a. precedes b a s))"

subsection \<open>Run state, payloads and the pass log\<close>

text \<open>
  \<open>run_inv_at\<close> is the run-state invariant read through \<^verbatim>\<open>modelDataMap[name]\<close>, and
  \<open>run_state_ok\<close> the same invariant checked key by key. \<open>log_ok b r log\<close> describes
  the passes of a loop that may run \<open>b\<close> passes: every pass but the last created a
  record, and the last one is the \<open>b\<close>-th pass, a pass that created nothing, or a pass
  left by an exception. \<open>relations_typed\<close> says that every relation field of an entity
  descriptor carries its \<open>relationToFields\<close> list, as the schema provider delivers it;
  \<open>unset\<close> says that a payload has no value for a key.
\<close>

definition run_inv_at :: "modelDataMap \<Rightarrow> bool" where
  "run_inv_at mdm =
     (\<forall>n e. map_of mdm n = Some e \<longrightarrow>
        (created e \<longleftrightarrow> createdRecords e \<noteq> []) \<and> length (createdRecords e) \<le> 1)"

definition run_state_ok :: "modelDataMap \<Rightarrow> bool" where
  "run_state_ok mdm =
     (\<forall>n \<in> set (map fst mdm).
        case map_of mdm n of
          None \<Rightarrow> False
        | Some e \<Rightarrow> (created e \<longleftrightarrow> createdRecords e \<noteq> []) \<and> length (createdRecords e) \<le> 1)"

definition relations_typed :: "model \<Rightarrow> bool" where
  "relations_typed m =
     (\<forall>f \<in> set (model_fields m). field_kind f = ''object'' \<longrightarrow> relationToFields f \<noteq> None)"

definition entries_typed :: "modelDataMap \<Rightarrow> bool" where
  "entries_typed mdm = (\<forall>n e. map_of mdm n = Some e \<longrightarrow> relations_typed (entry_model e))"

definition unset :: "jsval option \<Rightarrow> bool" where
  "unset v = (v = None \<or> v = Some JUndefined)"

definition log_ok :: "nat \<Rightarrow> (error + modelDataMap) \<Rightarrow> pass_result list \<Rightarrow> bool" where
  "log_ok b r log =
     (length log \<le> b \<and>
      (\<exists>k. (log = replicate k PassCreated \<and> k = b \<and> \<not> isl r) \<or>
           (log = replicate k PassCreated @ [PassNothing] \<and> \<not> isl r) \<or>
           (log = replicate k PassCreated @ [PassRaised] \<and> isl r)))"

subsection \<open>Required-dependency chains\<close>

text \<open>
  A payload value is a connect instruction when it is the object
  \<^verbatim>\<open>{ connect: { ... } }\<close> that \<^verbatim>\<open>buildCreationData\<close> writes for a relation field.

  The requirements of a persistence store are given apart from the schema, as a function
  \<open>R\<close> from the name of an entity type to the names of the relation fields the store
  requires for it. \<open>exact_create env ms R\<close> says that creation succeeds exactly when all
  required connections are present: for every type of \<open>ms\<close>, whatever the payload and
  the state of the store, \<^verbatim>\<open>create\<close> fails exactly when the payload lacks a connect
  instruction for one of the fields of \<open>R\<close>. A field \<open>carries p\<close> when it is a relation
  field to the type \<open>p\<close> that \<^verbatim>\<open>buildCreationData\<close> can fill: not a list, and with a
  foreign key on its own side.

  \<open>chain_schema ch R\<close> says that \<open>ch\<close>, read deepest type first, is a linear
  required-dependency chain for \<open>R\<close>: the names of the types are pairwise different, so
  are the field names of every type, every relation field has its \<open>relationToFields\<close>
  list, every type but the last requires exactly one field, which carries the next type
  of the list, and the last type requires nothing. The length of \<open>ch\<close> is the depth of
  the chain. The schema may hold any other fields.

  The requirement of a chain is \<^emph>\<open>visible\<close> to the graph builder when, among the fields
  that target a type of the chain, the required fields of the store are exactly the
  fields \<^verbatim>\<open>buildDependencyGraph\<close> takes for an edge (\<open>req\<close>: relation, not a list,
  marked required); it is \<^emph>\<open>hidden\<close> when no field targeting a type of the chain is
  marked so, as for a relation the schema declares optional and the store enforces.

  \<open>tracks ms C mdm\<close> relates a run state to the set \<open>C\<close> of the names of the types
  created so far; \<open>is_created\<close> and \<open>is_uncreated\<close> read one entry of the run state;
  \<open>ready R m C\<close> says that every type a required field of \<open>m\<close> targets is in \<open>C\<close>;
  \<open>ready_in_order\<close> says that in a list of names each type is ready once the names
  before it are created; \<open>depth_of ch x\<close> is the number of types from \<open>x\<close> to the end
  of \<open>ch\<close>.
\<close>

definition is_connect :: "jsval option \<Rightarrow> bool" where
  "is_connect v = (case v of Some (JObj [(k, JObj c)]) \<Rightarrow> k = ''connect'' | _ \<Rightarrow> False)"







fun depth_of :: "string list \<Rightarrow> string \<Rightarrow> nat" where
  "depth_of [] x = 0"
| "depth_of (a # r) x = (if x = a then Suc (length r) else depth_of r x)"







section \<open>Example schemas and persistence collaborators\<close>

text \<open>
  \<open>chain [n\<^sub>k, \<dots>, n\<^sub>1]\<close> is a linear chain of entity types, listed deepest first: every
  type has a string identifier, and every type but the last has a required relation
  \<open>prev\<close> to the next name in the list, carried by the foreign key \<open>prevId\<close>.
  \<open>two_way_chain required None [n\<^sub>k, \<dots>, n\<^sub>1]\<close> is the same chain as a schema provider
  delivers it, with the list field \<open>next\<close> for the other side of every relation; the
  relation \<open>prev\<close> and its foreign key are marked required or optional as the first
  argument says.

  \<open>strict_env ms\<close> is a persistence client for the schema \<open>ms\<close> whose \<^verbatim>\<open>create\<close>
  succeeds exactly when the payload holds a connect instruction for every required,
  non-list relation field of the type (the fields \<open>required_links ms\<close> names); the
  world counts the records created. \<open>store_env R\<close> is a persistence client whose
  \<^verbatim>\<open>create\<close> succeeds exactly when the payload holds a connect instruction for every
  field \<open>R\<close> names for the type, whatever the schema marks; \<open>prev_links ns\<close> requires
  the relation \<open>prev\<close> of every type of \<open>ns\<close> but the last.
\<close>

definition scalar_field :: "string \<Rightarrow> string \<Rightarrow> bool \<Rightarrow> field" where
  "scalar_field n t isid =
     \<lparr>field_name = n, field_kind = ''scalar'', field_type = t, isList = False,
      isRequired = True, isId = isid, isUnique = False, isReadOnly = False,
      relationFromFields = None, relationToFields = None\<rparr>"

definition relation_field :: "string \<Rightarrow> string \<Rightarrow> string \<Rightarrow> field" where
  "relation_field n target fk =
     \<lparr>field_name = n, field_kind = ''object'', field_type = target, isList = False,
      isRequired = True, isId = False, isUnique = False, isReadOnly = False,
      relationFromFields = Some [fk], relationToFields = Some [''id'']\<rparr>"


fun chain :: "string list \<Rightarrow> model list" where
  "chain [] = []"
| "chain [n] = [\<lparr>model_name = n, model_fields = [scalar_field ''id'' ''String'' True]\<rparr>]"
| "chain (n # p # rest) =
     \<lparr>model_name = n,
      model_fields = [scalar_field ''id'' ''String'' True,
                      scalar_field ''prevId'' ''String'' False,
                      relation_field ''prev'' p ''prevId'']\<rparr> # chain (p # rest)"




definition strict_env :: "model list \<Rightarrow> nat env" where
  "strict_env ms =
     \<lparr>create_op = (\<lambda>modelName data w.
        case find (\<lambda>m. model_name m = modelName) ms of
          None \<Rightarrow> (Inl (Failure ''unknown model''), w)
        | Some m \<Rightarrow>
            if list_all (\<lambda>f. field_kind f = ''object'' \<and> isRequired f \<and> \<not> isList f
                               \<longrightarrow> is_connect (map_of data (field_name f)))
                 (model_fields m)
            then (Inr [(''id'', JStr (modelName @ ''-id''))], Suc w)
            else (Inl (Failure ''missing required relation''), w)),
      update_op = (\<lambda>modelName ident data w. (Inl (Failure ''no update''), w)),
      disconnect_op = (\<lambda>w. (Inr (), w)),
      load_op = (\<lambda>seedPath w. (Inr ms, w)),
      random_op = (\<lambda>w. (''00000000'', w)),
      now_op = (\<lambda>w. (0, w)),
      date_of = (\<lambda>v. None)\<rparr>"






text \<open>
  \<open>logging_env schema\<close> is a collaborator whose world is the list of the operations
  performed so far; loading the schema gives \<open>schema\<close>, every other operation succeeds.
\<close>

definition logging_env :: "error + model list \<Rightarrow> string list env" where
  "logging_env schema =
     \<lparr>create_op = (\<lambda>modelName data w. (Inr [(''id'', JStr modelName)], w @ [''create''])),
      update_op = (\<lambda>modelName ident data w. (Inr [(''id'', ident)], w @ [''update''])),
      disconnect_op = (\<lambda>w. (Inr (), w @ [''disconnect''])),
      load_op = (\<lambda>seedPath w. (schema, w @ [''load''])),
      random_op = (\<lambda>w. (''00000000'', w)),
      now_op = (\<lambda>w. (0, w)),
      date_of = (\<lambda>v. None)\<rparr>"

section \<open>Properties of the dependency graph builder\<close>

lemma keys_map_entry: "map fst (AList.map_entry k f xs) = map fst xs"
  by (induction xs) auto

lemma keys_wire_field: "map fst (wire_field mn f g) = map fst g"
  by (simp add: wire_field_def keys_map_entry Let_def split: option.splits)

lemma keys_wire_fields: "map fst (fold (wire_field mn) fs g) = map fst g"
  by (induction fs arbitrary: g) (simp_all add: keys_wire_field)

lemma keys_wire_model: "map fst (wire_model m g) = map fst g"
  by (simp add: wire_model_def keys_wire_fields)

lemma keys_wire_models: "map fst (fold wire_model ms g) = map fst g"
  by (induction ms arbitrary: g) (simp_all add: keys_wire_model)

lemma keys_buildDependencyGraph:
  "map fst (buildDependencyGraph ms) = map fst (init_graph ms)"
  by (simp add: buildDependencyGraph_def keys_wire_models)

lemma set_add_set [simp]: "set (set_add x xs) = insert x (set xs)"
  by (auto simp: set_add_def)

lemma set_add_distinct [simp]: "distinct (set_add x xs) = distinct xs"
  by (auto simp: set_add_def)

lemma map_of_wire_field:
  "map_of (wire_field mn f g) =
     (if req f \<and> map_of g (field_type f) \<noteq> None then
        (let m1 = (map_of g)(mn := map_option (\<lambda>n. n\<lparr>dependsOn := set_add (field_type f) (dependsOn n)\<rparr>) (map_of g mn))
         in m1(field_type f := map_option (\<lambda>n. n\<lparr>referencedBy := set_add mn (referencedBy n)\<rparr>) (m1 (field_type f))))
      else map_of g)"
  by (auto simp: wire_field_def req_def Let_def AList.map_of_map_entry fun_eq_iff
      split: option.splits)

lemma dep_set_wire_field:
  "map_of g mn \<noteq> None \<Longrightarrow>
   dep_set (wire_field mn f g) a =
     dep_set g a \<union> (if a = mn \<and> req f \<and> map_of g (field_type f) \<noteq> None then {field_type f} else {})"
  by (auto simp: dep_set_def map_of_wire_field Let_def split: option.splits if_splits)



lemma ball_alist_distinct:
  "distinct (map fst g) \<Longrightarrow> (\<forall>(a, n) \<in> set g. P a n) = (\<forall>a n. map_of g a = Some n \<longrightarrow> P a n)"
  by auto

lemma dep_set_iff: "(b \<in> dep_set g a) = (\<exists>n. map_of g a = Some n \<and> b \<in> set (dependsOn n))"
  by (simp add: dep_set_def split: option.splits)

lemma ref_set_iff: "(b \<in> ref_set g a) = (\<exists>n. map_of g a = Some n \<and> b \<in> set (referencedBy n))"
  by (simp add: ref_set_def split: option.splits)

lemma wf_graph_alt:
  "wf_graph g =
     (distinct (map fst g) \<and>
      (\<forall>a n. map_of g a = Some n \<longrightarrow> distinct (dependsOn n) \<and> distinct (referencedBy n)) \<and>
      (\<forall>a b. b \<in> dep_set g a \<longleftrightarrow> a \<in> ref_set g b))"
proof (cases "distinct (map fst g)")
  case False
  then show ?thesis by (simp add: wf_graph_def)
next
  case True
  have "wf_graph g =
     (\<forall>a n. map_of g a = Some n \<longrightarrow>
         distinct (dependsOn n) \<and> distinct (referencedBy n) \<and>
         (\<forall>b \<in> set (dependsOn n). a \<in> ref_set g b) \<and>
         (\<forall>b \<in> set (referencedBy n). a \<in> dep_set g b))"
    unfolding wf_graph_def using True by (simp only: ball_alist_distinct [OF True] simp_thms)
  also have "\<dots> =
     ((\<forall>a n. map_of g a = Some n \<longrightarrow> distinct (dependsOn n) \<and> distinct (referencedBy n)) \<and>
      (\<forall>a b. b \<in> dep_set g a \<longrightarrow> a \<in> ref_set g b) \<and>
      (\<forall>a b. a \<in> ref_set g b \<longrightarrow> b \<in> dep_set g a))"
    unfolding dep_set_iff [of _ g] ref_set_iff [of _ g] by blast
  finally show ?thesis using True by blast
qed


lemma key_wire_field: "(map_of (wire_field mn f g) x = None) = (map_of g x = None)"
proof -
  have "set (map fst (wire_field mn f g)) = set (map fst g)"
    by (simp only: keys_wire_field)
  then show ?thesis
    by (simp add: map_of_eq_None_iff)
qed




lemma key_wire_fields: "(map_of (fold (wire_field mn) fs g) x = None) = (map_of g x = None)"
  by (induction fs arbitrary: g) (simp_all add: key_wire_field)


lemma dep_set_wire_fields:
  "map_of g mn \<noteq> None \<Longrightarrow>
   dep_set (fold (wire_field mn) fs g) a =
     dep_set g a \<union>
     (if a = mn then {field_type f |f. f \<in> set fs \<and> req f \<and> map_of g (field_type f) \<noteq> None}
      else {})"
proof (induction fs arbitrary: g)
  case Nil
  then show ?case by simp
next
  case (Cons f fs)
  have "map_of (wire_field mn f g) mn \<noteq> None"
    using Cons.prems by (simp add: key_wire_field)
  from Cons.IH [OF this] show ?case
    using Cons.prems by (auto simp: dep_set_wire_field key_wire_field)
qed

lemma key_wire_model: "(map_of (wire_model m g) x = None) = (map_of g x = None)"
  by (simp add: wire_model_def key_wire_fields)

lemma key_wire_models: "(map_of (fold wire_model ms g) x = None) = (map_of g x = None)"
  by (induction ms arbitrary: g) (simp_all add: key_wire_model)


lemma dep_set_wire_models:
  "\<forall>m \<in> set ms. map_of g (model_name m) \<noteq> None \<Longrightarrow>
   dep_set (fold wire_model ms g) a =
     dep_set g a \<union>
     {field_type f |m f. m \<in> set ms \<and> model_name m = a \<and> f \<in> set (model_fields m)
        \<and> req f \<and> map_of g (field_type f) \<noteq> None}"
proof (induction ms arbitrary: g)
  case Nil
  then show ?case by simp
next
  case (Cons m ms)
  have k: "\<forall>m' \<in> set ms. map_of (wire_model m g) (model_name m') \<noteq> None"
    using Cons.prems by (simp add: key_wire_model)
  have h: "map_of g (model_name m) \<noteq> None"
    using Cons.prems by simp
  show ?case
    unfolding fold_simps Cons.IH [OF k]
    unfolding wire_model_def dep_set_wire_fields [OF h] key_wire_fields
    by auto
qed

lemma init_fold:
  "distinct (map fst g) \<Longrightarrow> all_empty g \<Longrightarrow>
   distinct (map fst (fold (\<lambda>m g. AList.update (model_name m) (empty_node (model_name m)) g) ms g))
   \<and> all_empty (fold (\<lambda>m g. AList.update (model_name m) (empty_node (model_name m)) g) ms g)
   \<and> set (map fst (fold (\<lambda>m g. AList.update (model_name m) (empty_node (model_name m)) g) ms g))
       = set (map fst g) \<union> model_name ` set ms"
proof (induction ms arbitrary: g)
  case Nil
  then show ?case by simp
next
  case (Cons m ms)
  let ?g = "AList.update (model_name m) (empty_node (model_name m)) g"
  have 1: "distinct (map fst ?g)"
    using Cons.prems(1) by (rule AList.distinct_update)
  have 2: "all_empty ?g"
    using Cons.prems(2) by (simp add: all_empty_def AList.update_conv' empty_node_def)
  have 3: "set (map fst ?g) = insert (model_name m) (set (map fst g))"
    using AList.dom_update [of "model_name m" _ g] by simp
  from Cons.IH [OF 1 2] 3 show ?case
    by simp
qed

lemma init_graph_props:
  "distinct (map fst (init_graph ms))" "all_empty (init_graph ms)"
  "set (map fst (init_graph ms)) = model_name ` set ms"
  using init_fold [of "[]" ms] by (simp_all add: init_graph_def all_empty_def)


lemma key_init_graph: "(map_of (init_graph ms) x \<noteq> None) = (x \<in> model_name ` set ms)"
  using init_graph_props(3) [of ms] by (simp add: map_of_eq_None_iff)


lemma dep_set_buildDependencyGraph:
  "dep_set (buildDependencyGraph ms) a =
     {field_type f |m f. m \<in> set ms \<and> model_name m = a \<and> f \<in> set (model_fields m)
        \<and> req f \<and> field_type f \<in> model_name ` set ms}"
proof -
  have k: "\<forall>m \<in> set ms. map_of (init_graph ms) (model_name m) \<noteq> None"
    by (simp add: key_init_graph del: not_None_eq)
  have e: "dep_set (init_graph ms) a = {}"
    using init_graph_props(2) [of ms] by (auto simp: all_empty_def dep_set_iff)
  show ?thesis
    unfolding buildDependencyGraph_def dep_set_wire_models [OF k] e key_init_graph
    by simp
qed

subsection \<open>Self-relation edges\<close>

text \<open>
  Claim C1 says that no node's \<open>dependsOn\<close> set ever contains the node's own name, even
  for an entity type with a required, non-list relation field targeting its own type.
  The builder compares the target only against the keys of the graph, never against the
  owning type: for the one-model schema below the node \<open>Category\<close> depends on itself
  (and is referenced by itself).
\<close>

theorem buildDependencyGraph_self_edge_counterexample:
  "map_of
     (buildDependencyGraph
        [\<lparr>model_name = ''Category'',
          model_fields =
            [\<lparr>field_name = ''parent'', field_kind = ''object'', field_type = ''Category'',
              isList = False, isRequired = True, isId = False, isUnique = False,
              isReadOnly = False, relationFromFields = Some [''parentId''],
              relationToFields = Some [''id'']\<rparr>]\<rparr>])
     ''Category''
   = Some \<lparr>node_name = ''Category'', dependsOn = [''Category''],
            referencedBy = [''Category'']\<rparr>"
  by (simp add: buildDependencyGraph_def init_graph_def wire_model_def wire_field_def
      empty_node_def set_add_def Let_def)

text \<open>
  Claim C1, as the code has it: in the graph returned by \<open>buildDependencyGraph\<close> the
  \<open>dependsOn\<close> set of a node contains the node's own name exactly when an entity
  descriptor of that name has a required, non-list relation (object-kind) field whose
  target is that same type. So the graph has no self edge for a schema without such a
  field, and has one for a schema with it.
\<close>

theorem buildDependencyGraph_self_edge_iff:
  assumes "map_of (buildDependencyGraph models) a = Some n"
  shows "(a \<in> set (dependsOn n)) =
         (\<exists>m \<in> set models. model_name m = a \<and>
            (\<exists>f \<in> set (model_fields m).
               field_kind f = ''object'' \<and> \<not> isList f \<and> isRequired f \<and> field_type f = a))"
proof -
  have "(a \<in> set (dependsOn n)) = (a \<in> dep_set (buildDependencyGraph models) a)"
    using assms by (simp add: dep_set_def)
  also have "\<dots> = (\<exists>m \<in> set models. model_name m = a \<and>
            (\<exists>f \<in> set (model_fields m). req f \<and> field_type f = a))"
    unfolding dep_set_buildDependencyGraph by (simp add: image_iff) metis
  finally show ?thesis
    by (simp add: req_def)
qed

text \<open>
  The statement above at a two-model schema without a self-relation: \<open>Post\<close> requires
  \<open>User\<close>, and the node \<open>Post\<close> does not depend on itself.
\<close>

theorem buildDependencyGraph_self_edge_iff_witness:
  "map_of
     (buildDependencyGraph
        [\<lparr>model_name = ''Post'',
          model_fields =
            [\<lparr>field_name = ''author'', field_kind = ''object'', field_type = ''User'',
              isList = False, isRequired = True, isId = False, isUnique = False,
              isReadOnly = False, relationFromFields = Some [''authorId''],
              relationToFields = Some [''id'']\<rparr>]\<rparr>,
         \<lparr>model_name = ''User'', model_fields = []\<rparr>])
     ''Post''
   = Some \<lparr>node_name = ''Post'', dependsOn = [''User''], referencedBy = []\<rparr>
   \<and> ''Post'' \<notin> set (dependsOn \<lparr>node_name = ''Post'', dependsOn = [''User''], referencedBy = []\<rparr>)"
proof -
  let ?ms = "[\<lparr>model_name = ''Post'',
          model_fields =
            [\<lparr>field_name = ''author'', field_kind = ''object'', field_type = ''User'',
              isList = False, isRequired = True, isId = False, isUnique = False,
              isReadOnly = False, relationFromFields = Some [''authorId''],
              relationToFields = Some [''id'']\<rparr>]\<rparr>,
         \<lparr>model_name = ''User'', model_fields = []\<rparr>]"
  have h: "map_of (buildDependencyGraph ?ms) ''Post''
        = Some \<lparr>node_name = ''Post'', dependsOn = [''User''], referencedBy = []\<rparr>"
    by (simp add: buildDependencyGraph_def init_graph_def wire_model_def wire_field_def
      empty_node_def set_add_def Let_def)
  from buildDependencyGraph_self_edge_iff [OF h] h show ?thesis
    by simp
qed

section \<open>Properties of the topological orderer\<close>

lemma kahn_inv_step:
  assumes "kahn_inv ks deg q s" and deg1_def: "deg1 = AList.map_entry r (\<lambda>d. d - 1) deg"
  shows "kahn_inv ks deg1 (if map_of deg1 r = Some 0 then q @ [r] else q) s"
proof -
  from assms(1) have k: "map fst deg = ks" and d: "distinct (s @ q)" and sub: "set (s @ q) \<subseteq> set ks"
    and e: "\<And>a d. map_of deg a = Some d \<Longrightarrow> (a \<in> set (s @ q)) = (d \<le> 0)"
    by (simp_all add: kahn_inv_def)
  have m: "map_of deg1 = (map_of deg)(r := map_option (\<lambda>d. d - 1) (map_of deg r))"
    by (auto simp: deg1_def AList.map_of_map_entry fun_eq_iff split: option.splits)
  have k1: "map fst deg1 = ks"
    by (simp add: deg1_def keys_map_entry k)
  show ?thesis
  proof (cases "map_of deg1 r = Some 0")
    case True
    then have r1: "map_of deg r = Some 1"
      by (auto simp: m)
    then have "r \<notin> set (s @ q)"
      using e [OF r1] by simp
    moreover have "r \<in> set ks"
      using r1 k map_of_SomeD [OF r1] by force
    moreover have "\<And>a d. map_of deg1 a = Some d \<Longrightarrow> (a \<in> set (s @ q @ [r])) = (d \<le> 0)"
      using e r1 by (auto simp: m split: if_splits)
    ultimately show ?thesis
      using True k1 d sub by (simp add: kahn_inv_def)
  next
    case False
    have "\<And>a d. map_of deg1 a = Some d \<Longrightarrow> (a \<in> set (s @ q)) = (d \<le> 0)"
    proof -
      fix a d assume h: "map_of deg1 a = Some d"
      show "(a \<in> set (s @ q)) = (d \<le> 0)"
      proof (cases "a = r")
        case True
        with h obtain d0 where d0: "map_of deg r = Some d0" "d = d0 - 1"
          by (auto simp: m)
        with False h True have "d0 \<noteq> 1" by auto
        with e [OF d0(1)] d0(2) True show ?thesis by auto
      next
        case False
        with h have "map_of deg a = Some d" by (simp add: m)
        then show ?thesis by (rule e)
      qed
    qed
    then show ?thesis
      using False k1 d sub by (simp add: kahn_inv_def)
  qed
qed

lemma kahn_inv_relax:
  "kahn_inv ks deg q s \<Longrightarrow> relax refs deg q = (deg', q') \<Longrightarrow> kahn_inv ks deg' q' s"
proof (induction refs arbitrary: deg q)
  case Nil
  then show ?case by simp
next
  case (Cons r refs)
  let ?d = "AList.map_entry r (\<lambda>d. d - 1) deg"
  let ?q = "if map_of ?d r = Some 0 then q @ [r] else q"
  have "kahn_inv ks ?d ?q s"
    using kahn_inv_step [OF Cons.prems(1) refl] by simp
  moreover have "relax refs ?d ?q = (deg', q')"
    using Cons.prems(2) by (simp add: Let_def)
  ultimately show ?case
    by (rule Cons.IH)
qed

lemma kahn_inv_shift: "kahn_inv ks deg (c # q) s \<Longrightarrow> kahn_inv ks deg q (s @ [c])"
  by (auto simp: kahn_inv_def)

lemma kahn_inv_kahn:
  "kahn_inv ks deg q s \<Longrightarrow> kahn g deg q s = (deg', s') \<Longrightarrow> kahn_inv ks deg' [] s'"
proof (induction g deg q s rule: kahn.induct)
  case (1 g inDegree sortedNames)
  then show ?case by simp
next
  case (2 g inDegree current queue sortedNames)
  obtain d1 q1 where r: "relax (refs_of g current) inDegree queue = (d1, q1)"
    by (cases "relax (refs_of g current) inDegree queue")
  have a: "kahn_inv ks inDegree queue (sortedNames @ [current])"
    using "2.prems"(1) by (rule kahn_inv_shift)
  have b: "kahn_inv ks d1 q1 (sortedNames @ [current])"
    using a r by (rule kahn_inv_relax)
  have c: "kahn g d1 q1 (sortedNames @ [current]) = (deg', s')"
    using "2.prems"(2) r by simp
  show ?case
    using "2.IH" [OF r [symmetric] b c] .
qed


lemma keys_init_inDegree: "map fst (init_inDegree g) = map fst g"
  by (simp add: init_inDegree_def comp_def)

lemma map_of_init_inDegree:
  "map_of (init_inDegree g) a = map_option (\<lambda>n. int (length (dependsOn n))) (map_of g a)"
  by (induction g) (auto simp: init_inDegree_def)

lemma kahn_inv_init:
  assumes "distinct (map fst g)"
  shows "kahn_inv (map fst g) (init_inDegree g) (init_queue g) []"
proof -
  have "\<And>a d. map_of (init_inDegree g) a = Some d \<Longrightarrow> (a \<in> set (init_queue g)) = (d \<le> 0)"
  proof -
    fix a d assume h: "map_of (init_inDegree g) a = Some d"
    then have "0 \<le> d"
      by (auto simp: map_of_init_inDegree)
    moreover have "a \<in> set (map fst (init_inDegree g))"
      using map_of_SomeD [OF h] by force
    ultimately show "(a \<in> set (init_queue g)) = (d \<le> 0)"
      using h by (auto simp: init_queue_def)
  qed
  then show ?thesis
    using assms by (simp add: kahn_inv_def keys_init_inDegree init_queue_def)
qed

lemma remaining_filter:
  assumes "kahn_inv ks deg [] s"
  shows "filter (\<lambda>m. case map_of deg m of None \<Rightarrow> False | Some d \<Rightarrow> 0 < d) (map fst deg)
         = filter (\<lambda>m. m \<notin> set s) ks"
proof -
  from assms have k: "map fst deg = ks"
    and e: "\<And>a d. map_of deg a = Some d \<Longrightarrow> (a \<in> set s) = (d \<le> 0)"
    by (simp_all add: kahn_inv_def)
  have "(case map_of deg m of None \<Rightarrow> False | Some d \<Rightarrow> 0 < d) = (m \<notin> set s)"
    if "m \<in> set ks" for m
  proof -
    from that k have "m \<in> fst ` set deg" by auto
    then obtain d where d: "map_of deg m = Some d"
      by (cases "map_of deg m") (auto simp: map_of_eq_None_iff)
    with e [OF d] show ?thesis by auto
  qed
  then show ?thesis
    unfolding k by (intro filter_cong refl) 
qed

lemma topologicalSort_split:
  assumes "distinct (map fst g)"
    and "kahn g (init_inDegree g) (init_queue g) [] = (deg, s)"
  shows "topologicalSort g = s @ filter (\<lambda>m. m \<notin> set s) (map fst g)"
    and "distinct s" and "set s \<subseteq> set (map fst g)"
proof -
  have inv: "kahn_inv (map fst g) deg [] s"
    using kahn_inv_init [OF assms(1)] assms(2) by (rule kahn_inv_kahn)
  then show d: "distinct s" and sub: "set s \<subseteq> set (map fst g)"
    by (simp_all add: kahn_inv_def)
  have full: "filter (\<lambda>m. m \<notin> set s) (map fst g) = []" if "\<not> length s < length (map fst g)"
  proof -
    have "card (set (map fst g)) \<le> card (set s)"
      using that d assms(1) by (simp add: distinct_card del: set_map)
    with sub have "set s = set (map fst g)"
      by (intro card_seteq) simp_all
    then show ?thesis
      by (simp add: filter_empty_conv del: set_map)
  qed
  show "topologicalSort g = s @ filter (\<lambda>m. m \<notin> set s) (map fst g)"
    using assms(2) full remaining_filter [OF inv]
    by (simp add: topologicalSort_def Let_def init_queue_def del: set_map)
qed

lemma mset_split_distinct:
  assumes "distinct s" "distinct ks" "set s \<subseteq> set ks"
  shows "mset (s @ filter (\<lambda>m. m \<notin> set s) ks) = mset ks"
proof -
  have "set s = set (filter (\<lambda>m. m \<in> set s) ks)"
    using assms(3) by auto
  moreover have "distinct (filter (\<lambda>m. m \<in> set s) ks)"
    using assms(2) by simp
  ultimately have "mset s = mset (filter (\<lambda>m. m \<in> set s) ks)"
    using assms(1) set_eq_iff_mset_eq_distinct by blast
  then have "mset s = filter_mset (\<lambda>m. m \<in> set s) (mset ks)"
    by simp
  then show ?thesis
    using multiset_partition [of "mset ks" "\<lambda>m. m \<in> set s"] by simp
qed

lemma topologicalSort_perm_aux:
  assumes "distinct (map fst g)"
  shows "mset (topologicalSort g) = mset (map fst g)"
proof -
  obtain deg s where k: "kahn g (init_inDegree g) (init_queue g) [] = (deg, s)"
    by (cases "kahn g (init_inDegree g) (init_queue g) []")
  from topologicalSort_split [OF assms k] mset_split_distinct [OF _ assms]
  show ?thesis by simp
qed

subsection \<open>The output is a permutation of the node names\<close>

text \<open>
  Claim C3: for every dependency graph, cyclic or not, the sequence returned by
  \<open>topologicalSort\<close> is a permutation of the graph's node names, each name occurring
  exactly once; it consists of the names dequeued by Kahn's loop followed by the names
  the loop never reached, in key order. The only premise is that the keys of the
  association list are pairwise different, which every JavaScript object satisfies.
\<close>

theorem topologicalSort_permutation:
  assumes "distinct (map fst g)"
  shows "mset (topologicalSort g) = mset (map fst g)
         \<and> distinct (topologicalSort g)
         \<and> topologicalSort g =
             snd (kahn g (init_inDegree g) (init_queue g) []) @
             filter (\<lambda>m. m \<notin> set (snd (kahn g (init_inDegree g) (init_queue g) [])))
               (map fst g)"
proof -
  obtain deg s where k: "kahn g (init_inDegree g) (init_queue g) [] = (deg, s)"
    by (cases "kahn g (init_inDegree g) (init_queue g) []")
  have p: "mset (topologicalSort g) = mset (map fst g)"
    using assms by (rule topologicalSort_perm_aux)
  then have "distinct (topologicalSort g)"
    using assms by (metis mset_eq_imp_distinct_iff)
  with p topologicalSort_split(1) [OF assms k] k show ?thesis
    by simp
qed

text \<open>
  The statement above at a graph with the cycle \<open>X\<close>, \<open>Y\<close>: Kahn's loop dequeues only
  \<open>W\<close>, and the three names it never reaches follow in key order.
\<close>

theorem topologicalSort_permutation_witness:
  "distinct (map fst
     [(''X'', \<lparr>node_name = ''X'', dependsOn = [''Y''], referencedBy = [''Y'', ''Z'']\<rparr>),
      (''Y'', \<lparr>node_name = ''Y'', dependsOn = [''X''], referencedBy = [''X'']\<rparr>),
      (''Z'', \<lparr>node_name = ''Z'', dependsOn = [''X'', ''W''], referencedBy = []\<rparr>),
      (''W'', \<lparr>node_name = ''W'', dependsOn = [], referencedBy = [''Z'']\<rparr>)])
   \<and> topologicalSort
     [(''X'', \<lparr>node_name = ''X'', dependsOn = [''Y''], referencedBy = [''Y'', ''Z'']\<rparr>),
      (''Y'', \<lparr>node_name = ''Y'', dependsOn = [''X''], referencedBy = [''X'']\<rparr>),
      (''Z'', \<lparr>node_name = ''Z'', dependsOn = [''X'', ''W''], referencedBy = []\<rparr>),
      (''W'', \<lparr>node_name = ''W'', dependsOn = [], referencedBy = [''Z'']\<rparr>)]
     = [''W'', ''X'', ''Y'', ''Z'']
   \<and> mset [''W'', ''X'', ''Y'', ''Z''] = mset [''X'', ''Y'', ''Z'', ''W'']"
proof -
  let ?g = "[(''X'', \<lparr>node_name = ''X'', dependsOn = [''Y''], referencedBy = [''Y'', ''Z'']\<rparr>),
      (''Y'', \<lparr>node_name = ''Y'', dependsOn = [''X''], referencedBy = [''X'']\<rparr>),
      (''Z'', \<lparr>node_name = ''Z'', dependsOn = [''X'', ''W''], referencedBy = []\<rparr>),
      (''W'', \<lparr>node_name = ''W'', dependsOn = [], referencedBy = [''Z'']\<rparr>)]"
  have d: "distinct (map fst ?g)"
    by simp
  have v: "topologicalSort ?g = [''W'', ''X'', ''Y'', ''Z'']"
    by (simp add: topologicalSort_def init_inDegree_def init_queue_def refs_of_def Let_def)
  from topologicalSort_permutation [OF d, THEN conjunct1] show ?thesis
    unfolding v using d by simp
qed

subsection \<open>Dependencies come first in an acyclic graph\<close>

lemma map_of_relax:
  "distinct refs \<Longrightarrow> relax refs deg q = (deg', q') \<Longrightarrow>
   map_of deg' a = (if a \<in> set refs then map_option (\<lambda>d. d - 1) (map_of deg a) else map_of deg a)"
proof (induction refs arbitrary: deg q)
  case Nil
  then show ?case by simp
next
  case (Cons r refs)
  let ?d = "AList.map_entry r (\<lambda>d. d - 1) deg"
  let ?q = "if map_of ?d r = Some 0 then q @ [r] else q"
  have m: "map_of ?d = (map_of deg)(r := map_option (\<lambda>d. d - 1) (map_of deg r))"
    by (auto simp: AList.map_of_map_entry fun_eq_iff split: option.splits)
  have "relax refs ?d ?q = (deg', q')"
    using Cons.prems(2) by (simp add: Let_def)
  with Cons.prems(1) have
    "map_of deg' a = (if a \<in> set refs then map_option (\<lambda>d. d - 1) (map_of ?d a) else map_of ?d a)"
    by (intro Cons.IH) simp_all
  then show ?case
    using Cons.prems(1) unfolding m by auto
qed

lemma precedes_append_old: "precedes b a s \<Longrightarrow> precedes b a (s @ [c])"
  by (auto simp: precedes_def takeWhile_append1)

lemma precedes_append_new: "c \<notin> set s \<Longrightarrow> b \<in> set s \<Longrightarrow> precedes b c (s @ [c])"
proof -
  assume c: "c \<notin> set s" and b: "b \<in> set s"
  have "takeWhile (\<lambda>x. x \<noteq> c) (s @ [c]) = s @ takeWhile (\<lambda>x. x \<noteq> c) [c]"
    using c by (intro takeWhile_append2) auto
  then show ?thesis
    using b by (simp add: precedes_def)
qed

lemma kahn_inv2_step:
  assumes wf: "wf_graph g"
    and inv: "kahn_inv (map fst g) deg (c # q) s"
    and inv2: "kahn_inv2 g deg s"
    and rel: "relax (refs_of g c) deg q = (deg', q')"
  shows "kahn_inv2 g deg' (s @ [c])"
proof -
  from wf have dk: "distinct (map fst g)"
    and ds: "\<And>a n. map_of g a = Some n \<Longrightarrow> distinct (dependsOn n) \<and> distinct (referencedBy n)"
    and iv: "\<And>a b. (b \<in> dep_set g a) = (a \<in> ref_set g b)"
    by (simp_all add: wf_graph_alt)
  from inv have cs: "c \<notin> set s" and ck: "c \<in> set (map fst g)"
    and e: "\<And>a d. map_of deg a = Some d \<Longrightarrow> (a \<in> set (s @ c # q)) = (d \<le> 0)"
    by (simp_all add: kahn_inv_def)
  from inv2 have cnt: "\<And>a n. map_of g a = Some n \<Longrightarrow>
        map_of deg a = Some (int (card (set (dependsOn n) - set s)))"
    and ord: "\<And>a b. a \<in> set s \<Longrightarrow> b \<in> dep_set g a \<Longrightarrow> precedes b a s"
    by (simp_all add: kahn_inv2_def)
  from ck obtain nc where nc: "map_of g c = Some nc"
    by (cases "map_of g c") (auto simp: map_of_eq_None_iff)
  have refs: "set (refs_of g c) = ref_set g c"
    using nc by (simp add: refs_of_def ref_set_def)
  have dr: "distinct (refs_of g c)"
    using ds [OF nc] nc by (simp add: refs_of_def)
  have "map_of deg' a = Some (int (card (set (dependsOn n) - set (s @ [c]))))"
    if an: "map_of g a = Some n" for a n
  proof -
    have mem: "(a \<in> set (refs_of g c)) = (c \<in> set (dependsOn n))"
      using iv [of c a] an by (simp add: refs dep_set_def)
    have old: "map_of deg a = Some (int (card (set (dependsOn n) - set s)))"
      using an by (rule cnt)
    show ?thesis
    proof (cases "c \<in> set (dependsOn n)")
      case True
      then have "c \<in> set (dependsOn n) - set s"
        using cs by simp
      then have "card (set (dependsOn n) - set s - {c}) = card (set (dependsOn n) - set s) - 1"
        and "0 < card (set (dependsOn n) - set s)"
        by (simp_all add: card_gt_0_iff) blast
      moreover have "set (dependsOn n) - set (s @ [c]) = set (dependsOn n) - set s - {c}"
        by auto
      ultimately have "int (card (set (dependsOn n) - set (s @ [c])))
          = int (card (set (dependsOn n) - set s)) - 1"
        by simp
      then show ?thesis
        using map_of_relax [OF dr rel, of a] mem True old by simp
    next
      case False
      then have "set (dependsOn n) - set (s @ [c]) = set (dependsOn n) - set s"
        by auto
      then show ?thesis
        using map_of_relax [OF dr rel, of a] mem False old by simp
    qed
  qed
  moreover have "precedes b a (s @ [c])" if "a \<in> set (s @ [c])" "b \<in> dep_set g a" for a b
  proof (cases "a = c")
    case True
    have "map_of deg c = Some (int (card (set (dependsOn nc) - set s)))"
      using nc by (rule cnt)
    from e [OF this] have "card (set (dependsOn nc) - set s) = 0"
      by simp
    then have "set (dependsOn nc) \<subseteq> set s"
      by simp
    with that(2) True nc have "b \<in> set s"
      by (auto simp: dep_set_def)
    with cs True show ?thesis
      by (simp add: precedes_append_new)
  next
    case False
    with that have "precedes b a s"
      by (intro ord) simp_all
    then show ?thesis
      by (rule precedes_append_old)
  qed
  ultimately show ?thesis
    unfolding kahn_inv2_def by blast
qed

lemma kahn_inv2_kahn:
  "wf_graph g \<Longrightarrow> kahn_inv (map fst g) deg q s \<Longrightarrow> kahn_inv2 g deg s
   \<Longrightarrow> kahn g deg q s = (deg', s') \<Longrightarrow> kahn_inv2 g deg' s'"
proof (induction g deg q s rule: kahn.induct)
  case (1 g inDegree sortedNames)
  then show ?case by simp
next
  case (2 g inDegree current queue sortedNames)
  obtain d1 q1 where r: "relax (refs_of g current) inDegree queue = (d1, q1)"
    by (cases "relax (refs_of g current) inDegree queue")
  have a: "kahn_inv (map fst g) d1 q1 (sortedNames @ [current])"
    using kahn_inv_shift [OF "2.prems"(2)] r by (rule kahn_inv_relax)
  have b: "kahn_inv2 g d1 (sortedNames @ [current])"
    using "2.prems"(1,2,3) r by (rule kahn_inv2_step)
  have c: "kahn g d1 q1 (sortedNames @ [current]) = (deg', s')"
    using "2.prems"(4) r by simp
  show ?case
    using "2.IH" [OF r [symmetric] "2.prems"(1) a b c] .
qed

lemma kahn_inv2_init: "wf_graph g \<Longrightarrow> kahn_inv2 g (init_inDegree g) []"
  by (simp add: kahn_inv2_def map_of_init_inDegree wf_graph_alt distinct_card)


lemma edges_iff:
  assumes "distinct (map fst g)"
  shows "((a, b) \<in> edges g) = (b \<in> dep_set g a)"
proof -
  have "((a, b) \<in> edges g) = (\<exists>n. (a, n) \<in> set g \<and> b \<in> set (dependsOn n))"
    by (auto simp: edges_def)
  also have "\<dots> = (\<exists>n. map_of g a = Some n \<and> b \<in> set (dependsOn n))"
    using assms by simp
  finally show ?thesis
    by (simp add: dep_set_iff)
qed

lemma key_of_Some: "map_of g y = Some n \<Longrightarrow> y \<in> set (map fst g)"
  using map_of_SomeD [of g y n] by force

lemma acyclic_no_edges: "acyclic {}"
  by (simp add: acyclic_def)

lemma finite_edges: "finite (edges g)"
  by (auto simp: edges_def)

lemma kahn_complete:
  assumes wf: "wf_graph g" and ac: "acyclic (edges g)"
    and inv: "kahn_inv (map fst g) deg [] s" and inv2: "kahn_inv2 g deg s"
  shows "set s = set (map fst g)"
proof (rule ccontr)
  assume ne: "set s \<noteq> set (map fst g)"
  from wf have dk: "distinct (map fst g)"
    and iv: "\<And>a b. (b \<in> dep_set g a) = (a \<in> ref_set g b)"
    by (simp_all add: wf_graph_alt)
  from inv have sub: "set s \<subseteq> set (map fst g)"
    and e: "\<And>a d. map_of deg a = Some d \<Longrightarrow> (a \<in> set s) = (d \<le> 0)"
    by (simp_all add: kahn_inv_def)
  from inv2 have cnt: "\<And>a n. map_of g a = Some n \<Longrightarrow>
        map_of deg a = Some (int (card (set (dependsOn n) - set s)))"
    by (simp add: kahn_inv2_def)
  from ne sub obtain x where x: "x \<in> set (map fst g) - set s"
    by blast
  have "wf ((edges g)\<inverse>)"
    using finite_edges ac by (rule finite_acyclic_wf_converse)
  from wfE_min [OF this x] obtain z where z: "z \<in> set (map fst g) - set s"
    and zmin: "\<And>y. (y, z) \<in> (edges g)\<inverse> \<Longrightarrow> y \<notin> set (map fst g) - set s"
    by blast
  from z obtain nz where nz: "map_of g z = Some nz"
    by (cases "map_of g z") (auto simp: map_of_eq_None_iff)
  have "y \<in> set s" if "y \<in> set (dependsOn nz)" for y
  proof -
    from that nz have d: "y \<in> dep_set g z"
      by (simp add: dep_set_def)
    then have "z \<in> ref_set g y"
      by (simp add: iv)
    then have "y \<in> set (map fst g)"
      by (auto simp: ref_set_iff dest: key_of_Some simp del: set_map)
    moreover have "(y, z) \<in> (edges g)\<inverse>"
      using d by (simp add: edges_iff [OF dk])
    ultimately show ?thesis
      using zmin [of y] by blast
  qed
  then have "set (dependsOn nz) - set s = {}"
    by blast
  with cnt [OF nz] have "map_of deg z = Some 0"
    by simp
  from e [OF this] z show False
    by simp
qed

text \<open>
  Claim C2: for every acyclic dependency graph, the sequence returned by
  \<open>topologicalSort\<close> places each dependency before its dependents: whenever node \<open>a\<close>
  dependsOn node \<open>b\<close>, \<open>b\<close> occurs before \<open>a\<close> in the output.
\<close>

theorem topologicalSort_dependency_first:
  assumes "wf_graph g" and "acyclic (edges g)"
    and "(a, n) \<in> set g" and "b \<in> set (dependsOn n)"
  shows "precedes b a (topologicalSort g)"
proof -
  from assms(1) have dk: "distinct (map fst g)"
    by (simp add: wf_graph_def)
  obtain deg s where k: "kahn g (init_inDegree g) (init_queue g) [] = (deg, s)"
    by (cases "kahn g (init_inDegree g) (init_queue g) []")
  have inv: "kahn_inv (map fst g) deg [] s"
    using kahn_inv_init [OF dk] k by (rule kahn_inv_kahn)
  have inv2: "kahn_inv2 g deg s"
    using assms(1) kahn_inv_init [OF dk] kahn_inv2_init [OF assms(1)] k by (rule kahn_inv2_kahn)
  have full: "set s = set (map fst g)"
    using assms(1,2) inv inv2 by (rule kahn_complete)
  then have "topologicalSort g = s"
    using topologicalSort_split(1) [OF dk k] by (simp add: filter_empty_conv del: set_map)
  moreover have "a \<in> set s"
    using assms(3) full by force
  moreover have "b \<in> dep_set g a"
    using assms(3,4) dk by (simp add: dep_set_def)
  ultimately show ?thesis
    using inv2 by (simp add: kahn_inv2_def)
qed

text \<open>
  The statement above at the graph of \<open>Comment\<close>, \<open>Post\<close> and \<open>User\<close>, listed with the
  dependents first: the output is reversed, and \<open>Post\<close> precedes \<open>Comment\<close>.
\<close>

theorem topologicalSort_dependency_first_witness:
  "wf_graph
     [(''Comment'', \<lparr>node_name = ''Comment'', dependsOn = [''Post'', ''User''], referencedBy = []\<rparr>),
      (''Post'', \<lparr>node_name = ''Post'', dependsOn = [''User''], referencedBy = [''Comment'']\<rparr>),
      (''User'', \<lparr>node_name = ''User'', dependsOn = [], referencedBy = [''Post'', ''Comment'']\<rparr>)]
   \<and> acyclic (edges
     [(''Comment'', \<lparr>node_name = ''Comment'', dependsOn = [''Post'', ''User''], referencedBy = []\<rparr>),
      (''Post'', \<lparr>node_name = ''Post'', dependsOn = [''User''], referencedBy = [''Comment'']\<rparr>),
      (''User'', \<lparr>node_name = ''User'', dependsOn = [], referencedBy = [''Post'', ''Comment'']\<rparr>)])
   \<and> topologicalSort
     [(''Comment'', \<lparr>node_name = ''Comment'', dependsOn = [''Post'', ''User''], referencedBy = []\<rparr>),
      (''Post'', \<lparr>node_name = ''Post'', dependsOn = [''User''], referencedBy = [''Comment'']\<rparr>),
      (''User'', \<lparr>node_name = ''User'', dependsOn = [], referencedBy = [''Post'', ''Comment'']\<rparr>)]
     = [''User'', ''Post'', ''Comment'']
   \<and> precedes ''Post'' ''Comment'' [''User'', ''Post'', ''Comment'']"
proof -
  let ?g = "[(''Comment'', \<lparr>node_name = ''Comment'', dependsOn = [''Post'', ''User''], referencedBy = []\<rparr>),
      (''Post'', \<lparr>node_name = ''Post'', dependsOn = [''User''], referencedBy = [''Comment'']\<rparr>),
      (''User'', \<lparr>node_name = ''User'', dependsOn = [], referencedBy = [''Post'', ''Comment'']\<rparr>)]"
  have w: "wf_graph ?g"
    by (simp add: wf_graph_def dep_set_def ref_set_def)
  have "edges ?g = {(''Comment'', ''Post''), (''Comment'', ''User''), (''Post'', ''User'')}"
    by (auto simp: edges_def)
  then have a: "acyclic (edges ?g)"
    by (simp add: rtrancl_insert acyclic_no_edges)
  have m: "(''Comment'', \<lparr>node_name = ''Comment'', dependsOn = [''Post'', ''User''], referencedBy = []\<rparr>) \<in> set ?g"
    by simp
  have v: "topologicalSort ?g = [''User'', ''Post'', ''Comment'']"
    by (simp add: topologicalSort_def init_inDegree_def init_queue_def refs_of_def Let_def)
  from topologicalSort_dependency_first [OF w a m, of "''Post''"] w a show ?thesis
    unfolding v by simp
qed

section \<open>Properties of the record materializer\<close>

subsection \<open>The run-state invariant\<close>

lemma run_state_ok_iff: "run_state_ok mdm = run_inv_at mdm"
proof
  assume a: "run_state_ok mdm"
  show "run_inv_at mdm"
    unfolding run_inv_at_def
  proof (intro allI impI)
    fix n e assume h: "map_of mdm n = Some e"
    then have "n \<in> set (map fst mdm)"
      by (rule key_of_Some)
    with a h show "(created e \<longleftrightarrow> createdRecords e \<noteq> []) \<and> length (createdRecords e) \<le> 1"
      unfolding run_state_ok_def by fastforce
  qed
next
  assume a: "run_inv_at mdm"
  show "run_state_ok mdm"
    unfolding run_state_ok_def
  proof
    fix n assume "n \<in> set (map fst mdm)"
    then obtain e where "map_of mdm n = Some e"
      by (cases "map_of mdm n") (auto simp: map_of_eq_None_iff)
    with a show "case map_of mdm n of None \<Rightarrow> False
       | Some e \<Rightarrow> (created e \<longleftrightarrow> createdRecords e \<noteq> []) \<and> length (createdRecords e) \<le> 1"
      by (simp add: run_inv_at_def)
  qed
qed

lemma tryCreateOneRecord_cases:
  assumes "tryCreateOneRecord env mdm modelName w = (Inr (mdm', success), w')"
  shows "(success \<and> (\<exists>r. mdm' = push_record modelName r mdm)) \<or> (\<not> success \<and> mdm' = mdm)"
  using assms
  by (auto simp: tryCreateOneRecord_def split: prod.splits sum.splits)

lemma map_of_push_record:
  "map_of (push_record modelName r mdm) n =
     (if n = modelName
      then map_option (\<lambda>e. e\<lparr>createdRecords := createdRecords e @ [r]\<rparr>) (map_of mdm n)
      else map_of mdm n)"
  by (auto simp: push_record_def AList.map_of_map_entry split: option.splits)

lemma map_of_mark_created:
  "map_of (AList.map_entry modelName (\<lambda>e. e\<lparr>created := True\<rparr>) mdm) n =
     (if n = modelName then map_option (\<lambda>e. e\<lparr>created := True\<rparr>) (map_of mdm n)
      else map_of mdm n)"
  by (auto simp: AList.map_of_map_entry split: option.splits)

lemma run_inv_at_attempt:
  assumes "run_inv_at mdm" and "attempt env modelName (Inr (mdm, flag), w) = (Inr (mdm', flag'), w')"
  shows "run_inv_at mdm'"
proof -
  from assms(2) obtain e where e: "map_of mdm modelName = Some e"
    by (auto simp: attempt_def split: option.splits)
  show ?thesis
  proof (cases "created e")
    case True
    with assms e show ?thesis
      by (simp add: attempt_def)
  next
    case False
    with assms(1) e have empty: "createdRecords e = []"
      by (auto simp: run_inv_at_def)
    from assms(2) e False obtain m1 s where
      t: "tryCreateOneRecord env mdm modelName w = (Inr (m1, s), w')"
      and r: "mdm' = (if s then AList.map_entry modelName (\<lambda>e. e\<lparr>created := True\<rparr>) m1 else m1)"
      by (auto simp: attempt_def split: prod.splits sum.splits if_splits)
    from tryCreateOneRecord_cases [OF t] show ?thesis
    proof
      assume "s \<and> (\<exists>r. m1 = push_record modelName r mdm)"
      then obtain rec where s: s and m1: "m1 = push_record modelName rec mdm"
        by blast
      show ?thesis
        unfolding run_inv_at_def r m1
        using s e empty assms(1)
        by (auto simp: map_of_mark_created map_of_push_record run_inv_at_def split: if_splits)
    next
      assume "\<not> s \<and> m1 = mdm"
      with r assms(1) show ?thesis by simp
    qed
  qed
qed


lemma attempt_Inl: "attempt env n (Inl err, w) = (Inl err, w)"
  by (simp add: attempt_def)

lemma fold_attempt_Inl: "fold (attempt env) names (Inl err, w) = (Inl err, w)"
  by (induction names) (simp_all add: attempt_Inl)

lemma run_inv_at_fold_attempt:
  "run_inv_at mdm \<Longrightarrow> fold (attempt env) names (Inr (mdm, flag), w) = (Inr (mdm', flag'), w')
   \<Longrightarrow> run_inv_at mdm'"
proof (induction names arbitrary: mdm flag w)
  case Nil
  then show ?case by simp
next
  case (Cons n names)
  obtain r1 w1 where a: "attempt env n (Inr (mdm, flag), w) = (r1, w1)"
    by (cases "attempt env n (Inr (mdm, flag), w)")
  show ?case
  proof (cases r1)
    case (Inl err)
    with Cons.prems(2) a show ?thesis
      by (simp add: fold_attempt_Inl)
  next
    case (Inr p)
    obtain m1 f1 where p: "p = (m1, f1)"
      by (cases p)
    have "run_inv_at m1"
      using Cons.prems(1) a Inr p by (auto intro: run_inv_at_attempt)
    moreover have "fold (attempt env) names (Inr (m1, f1), w1) = (Inr (mdm', flag'), w')"
      using Cons.prems(2) a Inr p by simp
    ultimately show ?thesis
      by (rule Cons.IH)
  qed
qed

lemma run_inv_at_one_pass:
  "run_inv_at mdm \<Longrightarrow> one_pass env names mdm w = (Inr (mdm', flag'), w') \<Longrightarrow> run_inv_at mdm'"
  unfolding one_pass_def by (rule run_inv_at_fold_attempt)

lemma run_inv_at_passes:
  "run_inv_at mdm \<Longrightarrow> passes env names maxPasses pass mdm w = (Inr mdm', w', log)
   \<Longrightarrow> run_inv_at mdm'"
proof (induction env names maxPasses pass mdm w arbitrary: mdm' w' log rule: passes.induct)
  case (1 env names maxPasses pass mdm w)
  show ?case
  proof (cases "pass \<le> maxPasses")
    case False
    with "1.prems" show ?thesis
      by (simp add: passes.simps [of env names maxPasses pass])
  next
    case True
    obtain r1 w1 where o: "one_pass env names mdm w = (r1, w1)"
      by (cases "one_pass env names mdm w")
    show ?thesis
    proof (cases r1)
      case (Inl err)
      with "1.prems"(2) True o show ?thesis
        by (simp add: passes.simps [of env names maxPasses pass])
    next
      case (Inr p)
      obtain m1 f1 where p: "p = (m1, f1)"
        by (cases p)
      have i1: "run_inv_at m1"
        using "1.prems"(1) o Inr p by (auto intro: run_inv_at_one_pass)
      show ?thesis
      proof (cases f1)
        case False
        with "1.prems"(2) True o Inr p i1 show ?thesis
          by (simp add: passes.simps [of env names maxPasses pass])
      next
        case f: True
        obtain r2 w2 l2 where q: "passes env names maxPasses (pass + 1) m1 w1 = (r2, w2, l2)"
          by (cases "passes env names maxPasses (pass + 1) m1 w1")
        with "1.prems"(2) True o Inr p f have "r2 = Inr mdm'"
          by (simp add: passes.simps [of env names maxPasses pass])
        with q have "passes env names maxPasses (pass + 1) m1 w1 = (Inr mdm', w2, l2)"
          by simp
        from "1.IH" [OF True o [symmetric] _ _ _ i1 this] Inr p f show ?thesis
          by simp
      qed
    qed
  qed
qed


lemma run_inv_at_update:
  "run_inv_at mdm \<Longrightarrow> createdRecords e = [] \<Longrightarrow> \<not> created e
   \<Longrightarrow> run_inv_at (AList.update n e mdm)"
  by (simp add: run_inv_at_def AList.update_conv')

lemma run_inv_at_init_fold:
  "run_inv_at mdm \<Longrightarrow>
   run_inv_at (fold (\<lambda>m mdm. AList.update (model_name m)
                     \<lparr>entry_model = m, createdRecords = [], created = False\<rparr> mdm) ms mdm)"
proof (induction ms arbitrary: mdm)
  case Nil
  then show ?case by simp
next
  case (Cons m ms)
  have "run_inv_at (AList.update (model_name m)
          \<lparr>entry_model = m, createdRecords = [], created = False\<rparr> mdm)"
    using Cons.prems by (rule run_inv_at_update) simp_all
  from Cons.IH [OF this] show ?case
    by simp
qed

lemma run_inv_at_init: "run_inv_at (init_modelDataMap ms)"
  unfolding init_modelDataMap_def by (rule run_inv_at_init_fold) (simp add: run_inv_at_def)


text \<open>
  Claim C10: the main pass loop keeps the run-state invariant for every entity type: the
  \<open>created\<close> flag is true if and only if \<open>createdRecords\<close> is non-empty, and
  \<open>createdRecords\<close> holds at most one record. The invariant holds for the fresh run
  state, every pass that returns preserves it, and so it holds for the map that
  \<open>multiPassCreate\<close> returns.
\<close>

theorem pass_loop_run_state_invariant:
  "run_state_ok (init_modelDataMap models) \<and>
   (run_state_ok mdm \<longrightarrow> one_pass env names mdm w = (Inr (mdm1, flag), w1)
      \<longrightarrow> run_state_ok mdm1) \<and>
   (multiPassCreate env models maxPasses w0 = (Inr mdm', w', log) \<longrightarrow> run_state_ok mdm')"
proof (intro conjI impI)
  show i: "run_state_ok (init_modelDataMap models)"
    by (simp add: run_state_ok_iff run_inv_at_init)
  show "run_state_ok mdm1"
    if "run_state_ok mdm" "one_pass env names mdm w = (Inr (mdm1, flag), w1)"
    using that run_inv_at_one_pass [of mdm env names w mdm1 flag w1]
    by (simp add: run_state_ok_iff)
  show "run_state_ok mdm'" if "multiPassCreate env models maxPasses w0 = (Inr mdm', w', log)"
    using that i run_inv_at_passes [of "init_modelDataMap models" env _ maxPasses 1 w0 mdm' w' log]
    by (simp add: run_state_ok_iff multiPassCreate_def Let_def)
qed

text \<open>
  The statement above at the chain \<open>T2\<close> requires \<open>T1\<close> with the strict collaborator: one
  pass over the sorted names creates both records, and the returned map satisfies the
  invariant.
\<close>

theorem pass_loop_run_state_invariant_witness:
  "run_state_ok (init_modelDataMap (chain [''T2'', ''T1'']))
   \<and> one_pass (strict_env (chain [''T2'', ''T1''])) [''T1'', ''T2'']
       (init_modelDataMap (chain [''T2'', ''T1''])) 0
     = (Inr ([(''T2'', \<lparr>entry_model = hd (chain [''T2'', ''T1'']),
                       createdRecords = [[(''id'', JStr ''T2-id'')]], created = True\<rparr>),
              (''T1'', \<lparr>entry_model = hd (chain [''T1'']),
                       createdRecords = [[(''id'', JStr ''T1-id'')]], created = True\<rparr>)],
             True), 2)
   \<and> multiPassCreate (strict_env (chain [''T2'', ''T1''])) (chain [''T2'', ''T1'']) 5 0
     = (Inr [(''T2'', \<lparr>entry_model = hd (chain [''T2'', ''T1'']),
                       createdRecords = [[(''id'', JStr ''T2-id'')]], created = True\<rparr>),
             (''T1'', \<lparr>entry_model = hd (chain [''T1'']),
                       createdRecords = [[(''id'', JStr ''T1-id'')]], created = True\<rparr>)],
        2, [PassCreated, PassNothing])
   \<and> run_state_ok
        [(''T2'', \<lparr>entry_model = hd (chain [''T2'', ''T1'']),
                   createdRecords = [[(''id'', JStr ''T2-id'')]], created = True\<rparr>),
         (''T1'', \<lparr>entry_model = hd (chain [''T1'']),
                   createdRecords = [[(''id'', JStr ''T1-id'')]], created = True\<rparr>)]"
proof -
  let ?env = "strict_env (chain [''T2'', ''T1''])"
  let ?ms = "chain [''T2'', ''T1'']"
  let ?M = "[(''T2'', \<lparr>entry_model = hd (chain [''T2'', ''T1'']),
                   createdRecords = [[(''id'', JStr ''T2-id'')]], created = True\<rparr>),
         (''T1'', \<lparr>entry_model = hd (chain [''T1'']),
                   createdRecords = [[(''id'', JStr ''T1-id'')]], created = True\<rparr>)]"
  have o: "one_pass ?env [''T1'', ''T2''] (init_modelDataMap ?ms) 0 = (Inr (?M, True), 2)"
    by code_simp
  have m: "multiPassCreate ?env ?ms 5 0 = (Inr ?M, 2, [PassCreated, PassNothing])"
    by code_simp
  from pass_loop_run_state_invariant
    [of ?ms "init_modelDataMap ?ms" ?env "[''T1'', ''T2'']" 0 ?M True 2 5 0 ?M 2
      "[PassCreated, PassNothing]"]
  show ?thesis
    unfolding o m by simp
qed

subsection \<open>A failed creation attempt\<close>

text \<open>
  Claim C5: if the persistence collaborator's \<^verbatim>\<open>create\<close> fails for an entity type,
  \<open>tryCreateOneRecord\<close> returns \<^verbatim>\<open>false\<close> without raising and leaves the run state as
  it was; the body of the pass loop then leaves the map and the flag of the pass as they
  were, so no record is appended and the \<open>created\<close> flag stays false.
\<close>

theorem tryCreateOneRecord_create_failure:
  assumes "buildCreationData env mdm modelName w = (Inr data, w1)"
    and "create_op env modelName data w1 = (Inl err, w2)"
  shows "tryCreateOneRecord env mdm modelName w = (Inr (mdm, False), w2)
     \<and> (\<forall>e flag. map_of mdm modelName = Some e \<longrightarrow> \<not> created e \<longrightarrow>
           attempt env modelName (Inr (mdm, flag), w) = (Inr (mdm, flag), w2))"
proof -
  have t: "tryCreateOneRecord env mdm modelName w = (Inr (mdm, False), w2)"
    using assms by (simp add: tryCreateOneRecord_def)
  then show ?thesis
    by (simp add: attempt_def)
qed

text \<open>
  The statement above at the chain \<open>T2\<close> requires \<open>T1\<close>, attempting \<open>T2\<close> while \<open>T1\<close>
  has no record: the payload leaves \<open>prev\<close> unset and the strict collaborator rejects it.
\<close>

theorem tryCreateOneRecord_create_failure_witness:
  "buildCreationData (strict_env (chain [''T2'', ''T1''])) (init_modelDataMap (chain [''T2'', ''T1'']))
       ''T2'' 0
     = (Inr [(''id'', JUndefined), (''prev'', JUndefined)], 0)
   \<and> create_op (strict_env (chain [''T2'', ''T1''])) ''T2''
       [(''id'', JUndefined), (''prev'', JUndefined)] 0
     = (Inl (Failure ''missing required relation''), 0)
   \<and> tryCreateOneRecord (strict_env (chain [''T2'', ''T1'']))
       (init_modelDataMap (chain [''T2'', ''T1''])) ''T2'' 0
     = (Inr (init_modelDataMap (chain [''T2'', ''T1'']), False), 0)
   \<and> attempt (strict_env (chain [''T2'', ''T1''])) ''T2''
       (Inr (init_modelDataMap (chain [''T2'', ''T1'']), False), 0)
     = (Inr (init_modelDataMap (chain [''T2'', ''T1'']), False), 0)"
proof -
  let ?env = "strict_env (chain [''T2'', ''T1''])"
  let ?mdm = "init_modelDataMap (chain [''T2'', ''T1''])"
  have b: "buildCreationData ?env ?mdm ''T2'' 0
     = (Inr [(''id'', JUndefined), (''prev'', JUndefined)], 0)"
    by code_simp
  have c: "create_op ?env ''T2'' [(''id'', JUndefined), (''prev'', JUndefined)] 0
     = (Inl (Failure ''missing required relation''), 0)"
    by code_simp
  have e: "map_of ?mdm ''T2''
     = Some \<lparr>entry_model = hd (chain [''T2'', ''T1'']), createdRecords = [], created = False\<rparr>"
    by code_simp
  from tryCreateOneRecord_create_failure [OF b c] b c e show ?thesis
    by simp
qed

subsection \<open>The pass loop returns without an exception\<close>

text \<open>
  The \<^verbatim>\<open>TypeError\<close> branches of the model are not taken by \<open>multiPassCreate\<close> when
  every relation field carries its \<open>relationToFields\<close> list: the sorted names are keys
  of the run-state map, and payload assembly finds every list it iterates over.
\<close>

lemma tryCreateOneRecord_pushes:
  assumes "map_of mdm modelName = Some e"
    and "tryCreateOneRecord env mdm modelName w = (Inr (mdm1, True), w1)"
  shows "\<exists>e1 r. map_of mdm1 modelName = Some e1 \<and> createdRecords e1 = createdRecords e @ [r]"
proof -
  from tryCreateOneRecord_cases [OF assms(2)] obtain r where "mdm1 = push_record modelName r mdm"
    by blast
  with assms(1) show ?thesis
    by (simp add: map_of_push_record)
qed

lemma relation_step_returns:
  assumes "field_kind f = ''object'' \<longrightarrow> relationToFields f \<noteq> None"
  shows "\<exists>d'. relation_step mdm mn m f (Inr d) = Inr d'"
  using assms
  by (auto simp: relation_step_def connect_to_def split: option.splits list.splits)

lemma fold_relation_step_returns:
  "\<forall>f \<in> set fs. field_kind f = ''object'' \<longrightarrow> relationToFields f \<noteq> None
   \<Longrightarrow> \<exists>d'. fold (relation_step mdm mn m) fs (Inr d) = Inr d'"
proof (induction fs arbitrary: d)
  case Nil
  then show ?case by simp
next
  case (Cons f fs)
  have "field_kind f = ''object'' \<longrightarrow> relationToFields f \<noteq> None"
    using Cons.prems by simp
  then obtain d1 where "relation_step mdm mn m f (Inr d) = Inr d1"
    using relation_step_returns by blast
  moreover have "\<exists>d'. fold (relation_step mdm mn m) fs (Inr d1) = Inr d'"
    using Cons.prems by (intro Cons.IH) simp
  ultimately show ?case by simp
qed

lemma buildCreationData_returns:
  assumes "map_of mdm modelName = Some e" and "relations_typed (entry_model e)"
  shows "\<exists>data w'. buildCreationData env mdm modelName w = (Inr data, w')"
proof -
  let ?m = "entry_model e"
  obtain d0 w0 where s: "fold (scalar_step env ?m) (model_fields ?m) ([], w) = (d0, w0)"
    by (cases "fold (scalar_step env ?m) (model_fields ?m) ([], w)")
  obtain d1 where "fold (relation_step mdm modelName ?m) (model_fields ?m) (Inr d0) = Inr d1"
    using fold_relation_step_returns [of "model_fields ?m"] assms(2)
    unfolding relations_typed_def by blast
  with assms(1) s show ?thesis
    by (simp add: buildCreationData_def Let_def)
qed

lemma entries_typed_push: "entries_typed mdm \<Longrightarrow> entries_typed (push_record n r mdm)"
  by (auto simp: entries_typed_def map_of_push_record split: if_splits)

lemma entries_typed_mark:
  "entries_typed mdm \<Longrightarrow> entries_typed (AList.map_entry n (\<lambda>e. e\<lparr>created := True\<rparr>) mdm)"
  by (auto simp: entries_typed_def map_of_mark_created split: if_splits)

lemma attempt_returns:
  assumes "entries_typed mdm" and "modelName \<in> set (map fst mdm)"
  shows "\<exists>mdm' flag' w'. attempt env modelName (Inr (mdm, flag), w) = (Inr (mdm', flag'), w')
           \<and> entries_typed mdm' \<and> map fst mdm' = map fst mdm"
proof -
  from assms(2) obtain e where e: "map_of mdm modelName = Some e"
    by (cases "map_of mdm modelName") (auto simp: map_of_eq_None_iff)
  show ?thesis
  proof (cases "created e")
    case True
    with e assms(1) show ?thesis
      by (simp add: attempt_def)
  next
    case False
    from assms(1) e have "relations_typed (entry_model e)"
      by (simp add: entries_typed_def)
    from buildCreationData_returns [OF e this, of env w]
    obtain data w1 where b: "buildCreationData env mdm modelName w = (Inr data, w1)"
      by blast
    obtain c w2 where c: "create_op env modelName data w1 = (c, w2)"
      by (cases "create_op env modelName data w1")
    show ?thesis
    proof (cases c)
      case (Inl err)
      with e False b c assms(1) show ?thesis
        by (simp add: attempt_def tryCreateOneRecord_def)
    next
      case (Inr r)
      with e False b c have
        "attempt env modelName (Inr (mdm, flag), w) =
           (Inr (AList.map_entry modelName (\<lambda>e. e\<lparr>created := True\<rparr>)
                   (push_record modelName r mdm), True), w2)"
        by (simp add: attempt_def tryCreateOneRecord_def)
      moreover have "entries_typed (AList.map_entry modelName (\<lambda>e. e\<lparr>created := True\<rparr>)
                   (push_record modelName r mdm))"
        using assms(1) by (intro entries_typed_mark entries_typed_push)
      moreover have "map fst (AList.map_entry modelName (\<lambda>e. e\<lparr>created := True\<rparr>)
                   (push_record modelName r mdm)) = map fst mdm"
        by (simp add: keys_map_entry push_record_def)
      ultimately show ?thesis by blast
    qed
  qed
qed

lemma one_pass_returns:
  "entries_typed mdm \<Longrightarrow> set names \<subseteq> set (map fst mdm)
   \<Longrightarrow> \<exists>mdm' flag' w'. fold (attempt env) names (Inr (mdm, flag), w) = (Inr (mdm', flag'), w')
           \<and> entries_typed mdm' \<and> map fst mdm' = map fst mdm"
proof (induction names arbitrary: mdm flag w)
  case Nil
  then show ?case by simp
next
  case (Cons n names)
  have "n \<in> set (map fst mdm)"
    using Cons.prems(2) by simp
  from attempt_returns [OF Cons.prems(1) this, of env flag w] obtain m1 f1 w1 where
    a: "attempt env n (Inr (mdm, flag), w) = (Inr (m1, f1), w1)"
    and t: "entries_typed m1" and k: "map fst m1 = map fst mdm"
    by blast
  have "set names \<subseteq> set (map fst m1)"
    using Cons.prems(2) k by simp
  from Cons.IH [OF t this, of f1 w1] obtain m2 f2 w2 where
    "fold (attempt env) names (Inr (m1, f1), w1) = (Inr (m2, f2), w2)"
    "entries_typed m2" "map fst m2 = map fst m1"
    by blast
  with a k show ?case
    by simp
qed

lemma passes_returns:
  "entries_typed mdm \<Longrightarrow> set names \<subseteq> set (map fst mdm)
   \<Longrightarrow> \<exists>mdm' w' log. passes env names maxPasses pass mdm w = (Inr mdm', w', log)"
proof (induction env names maxPasses pass mdm w rule: passes.induct)
  case (1 env names maxPasses pass mdm w)
  show ?case
  proof (cases "pass \<le> maxPasses")
    case False
    then show ?thesis
      by (simp add: passes.simps [of env names maxPasses pass])
  next
    case True
    from one_pass_returns [OF "1.prems", of env False w] obtain m1 f1 w1 where
      o: "one_pass env names mdm w = (Inr (m1, f1), w1)"
      and t: "entries_typed m1" and k: "map fst m1 = map fst mdm"
      unfolding one_pass_def by blast
    show ?thesis
    proof (cases f1)
      case False
      with True o show ?thesis
        by (simp add: passes.simps [of env names maxPasses pass])
    next
      case f: True
      have sub: "set names \<subseteq> set (map fst m1)"
        using "1.prems"(2) k by simp
      have "\<exists>mdm' w' log. passes env names maxPasses (pass + 1) m1 w1 = (Inr mdm', w', log)"
        using f t sub by (intro "1.IH" [OF True o [symmetric] refl refl]) simp_all
      then obtain m2 w2 l2 where
        "passes env names maxPasses (pass + 1) m1 w1 = (Inr m2, w2, l2)"
        by blast
      with True o f show ?thesis
        by (simp add: passes.simps [of env names maxPasses pass])
    qed
  qed
qed


lemma init_modelDataMap_fold:
  "set (map fst (fold (\<lambda>m mdm. AList.update (model_name m)
                     \<lparr>entry_model = m, createdRecords = [], created = False\<rparr> mdm) ms mdm))
     = set (map fst mdm) \<union> model_name ` set ms"
proof (induction ms arbitrary: mdm)
  case Nil
  then show ?case by simp
next
  case (Cons m ms)
  have "set (map fst (AList.update (model_name m)
            \<lparr>entry_model = m, createdRecords = [], created = False\<rparr> mdm))
        = insert (model_name m) (set (map fst mdm))"
    using AList.dom_update [of "model_name m" _ mdm] by simp
  then show ?case
    unfolding fold_simps Cons.IH by auto
qed

lemma entries_typed_init_fold:
  "entries_typed mdm \<Longrightarrow> \<forall>m \<in> set ms. relations_typed m \<Longrightarrow>
   entries_typed (fold (\<lambda>m mdm. AList.update (model_name m)
                     \<lparr>entry_model = m, createdRecords = [], created = False\<rparr> mdm) ms mdm)"
proof (induction ms arbitrary: mdm)
  case Nil
  then show ?case by simp
next
  case (Cons m ms)
  have "entries_typed (AList.update (model_name m)
            \<lparr>entry_model = m, createdRecords = [], created = False\<rparr> mdm)"
    using Cons.prems by (auto simp: entries_typed_def AList.update_conv')
  then show ?case
    using Cons.prems(2) Cons.IH by simp
qed

lemma keys_init_modelDataMap: "set (map fst (init_modelDataMap ms)) = model_name ` set ms"
  using init_modelDataMap_fold [of ms "[]"] by (simp add: init_modelDataMap_def)

lemma set_topologicalSort_build:
  "set (topologicalSort (buildDependencyGraph ms)) = model_name ` set ms"
proof -
  have d: "distinct (map fst (buildDependencyGraph ms))"
    by (simp add: keys_buildDependencyGraph init_graph_props(1))
  have "set (topologicalSort (buildDependencyGraph ms)) = set (map fst (buildDependencyGraph ms))"
    using topologicalSort_perm_aux [OF d] by (rule mset_eq_setD)
  then show ?thesis
    by (simp only: keys_buildDependencyGraph init_graph_props(3))
qed

lemma multiPassCreate_returns:
  assumes "\<forall>m \<in> set models. relations_typed m"
  shows "\<exists>mdm w' log. multiPassCreate env models maxPasses w = (Inr mdm, w', log)"
proof -
  have "entries_typed (init_modelDataMap models)"
    unfolding init_modelDataMap_def
    using assms by (intro entries_typed_init_fold) (simp_all add: entries_typed_def)
  moreover have "set (topologicalSort (buildDependencyGraph models))
      \<subseteq> set (map fst (init_modelDataMap models))"
    by (simp only: set_topologicalSort_build keys_init_modelDataMap subset_refl)
  ultimately show ?thesis
    unfolding multiPassCreate_def Let_def by (rule passes_returns)
qed

subsection \<open>The pass log\<close>

lemma log_ok_Cons:
  assumes "log_ok b r log"
  shows "log_ok (Suc b) r (PassCreated # log)"
proof -
  from assms obtain k where k:
    "(log = replicate k PassCreated \<and> k = b \<and> \<not> isl r) \<or>
     (log = replicate k PassCreated @ [PassNothing] \<and> \<not> isl r) \<or>
     (log = replicate k PassCreated @ [PassRaised] \<and> isl r)"
    and len: "length log \<le> b"
    by (auto simp: log_ok_def)
  from k have
    "(PassCreated # log = replicate (Suc k) PassCreated \<and> Suc k = Suc b \<and> \<not> isl r) \<or>
     (PassCreated # log = replicate (Suc k) PassCreated @ [PassNothing] \<and> \<not> isl r) \<or>
     (PassCreated # log = replicate (Suc k) PassCreated @ [PassRaised] \<and> isl r)"
    by auto
  with len show ?thesis
    unfolding log_ok_def by (intro conjI exI [of _ "Suc k"]) simp_all
qed

lemma log_ok_passes:
  "passes env names maxPasses pass mdm w = (r, w', log)
   \<Longrightarrow> log_ok (nat (maxPasses + 1 - pass)) r log"
proof (induction env names maxPasses pass mdm w arbitrary: r w' log rule: passes.induct)
  case (1 env names maxPasses pass mdm w)
  show ?case
  proof (cases "pass \<le> maxPasses")
    case False
    with "1.prems" have "log = []" "\<not> isl r"
      by (auto simp: passes.simps [of env names maxPasses pass])
    with False show ?thesis
      by (simp add: log_ok_def)
  next
    case True
    then have b: "nat (maxPasses + 1 - pass) = Suc (nat (maxPasses + 1 - (pass + 1)))"
      by simp
    obtain r1 w1 where o: "one_pass env names mdm w = (r1, w1)"
      by (cases "one_pass env names mdm w")
    show ?thesis
    proof (cases r1)
      case (Inl err)
      with "1.prems" True o have "log = [PassRaised]" "isl r"
        by (auto simp: passes.simps [of env names maxPasses pass])
      then show ?thesis
        unfolding log_ok_def b by (intro conjI exI [of _ 0]) simp_all
    next
      case (Inr p)
      obtain m1 f1 where p: "p = (m1, f1)"
        by (cases p)
      show ?thesis
      proof (cases f1)
        case False
        with "1.prems" True o Inr p have "log = [PassNothing]" "\<not> isl r"
          by (auto simp: passes.simps [of env names maxPasses pass])
        then show ?thesis
          unfolding log_ok_def b by (intro conjI exI [of _ 0]) simp_all
      next
        case f: True
        obtain r2 w2 l2 where q: "passes env names maxPasses (pass + 1) m1 w1 = (r2, w2, l2)"
          by (cases "passes env names maxPasses (pass + 1) m1 w1")
        with "1.prems" True o Inr p f have e: "r = r2" "log = PassCreated # l2"
          by (auto simp: passes.simps [of env names maxPasses pass])
        have "log_ok (nat (maxPasses + 1 - (pass + 1))) r2 l2"
          using "1.IH" [OF True o [symmetric] _ _ _ q] Inr p f by simp
        then show ?thesis
          unfolding e b by (rule log_ok_Cons)
      qed
    qed
  qed
qed

text \<open>
  Claim C4: for every schema and every behaviour of the persistence collaborator the
  pass loop terminates, having executed at most \<open>maxPasses\<close> passes, and it stops
  before \<open>maxPasses\<close> as soon as a full pass creates no record. \<open>multiPassCreate\<close> is a
  total function of the collaborator's operations, and its log of passes has at most
  \<open>maxPasses\<close> entries: a run of passes that each created a record, ended by the
  \<open>maxPasses\<close>-th pass, by the first pass that created nothing, or by an exception.
\<close>

theorem multiPassCreate_bounded_passes:
  "\<exists>r w' log. multiPassCreate env models maxPasses w = (r, w', log)
     \<and> length log \<le> nat maxPasses
     \<and> (\<exists>k. (log = replicate k PassCreated \<and> k = nat maxPasses \<and> \<not> isl r) \<or>
             (log = replicate k PassCreated @ [PassNothing] \<and> \<not> isl r) \<or>
             (log = replicate k PassCreated @ [PassRaised] \<and> isl r))"
proof -
  obtain r w' log where m: "multiPassCreate env models maxPasses w = (r, w', log)"
    by (cases "multiPassCreate env models maxPasses w")
  then have "log_ok (nat (maxPasses + 1 - 1)) r log"
    unfolding multiPassCreate_def Let_def by (rule log_ok_passes)
  with m show ?thesis
    by (simp add: log_ok_def)
qed

text \<open>
  The statement above at the chain \<open>T2\<close> requires \<open>T1\<close> with \<open>maxPasses = 5\<close>: the first
  pass creates both records, the second creates nothing and ends the loop.
\<close>

theorem multiPassCreate_bounded_passes_witness:
  "multiPassCreate (strict_env (chain [''T2'', ''T1''])) (chain [''T2'', ''T1'']) 5 0
     = (Inr [(''T2'', \<lparr>entry_model = hd (chain [''T2'', ''T1'']),
                       createdRecords = [[(''id'', JStr ''T2-id'')]], created = True\<rparr>),
             (''T1'', \<lparr>entry_model = hd (chain [''T1'']),
                       createdRecords = [[(''id'', JStr ''T1-id'')]], created = True\<rparr>)],
        2, [PassCreated, PassNothing])
   \<and> length [PassCreated, PassNothing] \<le> nat 5
   \<and> [PassCreated, PassNothing] = replicate 1 PassCreated @ [PassNothing]"
proof -
  have v: "multiPassCreate (strict_env (chain [''T2'', ''T1''])) (chain [''T2'', ''T1'']) 5 0
     = (Inr [(''T2'', \<lparr>entry_model = hd (chain [''T2'', ''T1'']),
                       createdRecords = [[(''id'', JStr ''T2-id'')]], created = True\<rparr>),
             (''T1'', \<lparr>entry_model = hd (chain [''T1'']),
                       createdRecords = [[(''id'', JStr ''T1-id'')]], created = True\<rparr>)],
        2, [PassCreated, PassNothing])"
    by code_simp
  from multiPassCreate_bounded_passes
    [of "strict_env (chain [''T2'', ''T1''])" "chain [''T2'', ''T1'']" 5 0]
  show ?thesis
    unfolding v by simp
qed

subsection \<open>Payload assembly\<close>

lemma relation_step_Inl: "relation_step mdm mn m f (Inl err) = Inl err"
  by (simp add: relation_step_def)

lemma fold_relation_step_Inl: "fold (relation_step mdm mn m) fs (Inl err) = Inl err"
  by (induction fs) (simp_all add: relation_step_Inl)

lemma relation_step_other:
  assumes "relation_step mdm mn m g (Inr d) = Inr d'"
    and "field_kind g = ''object'' \<and> field_type g \<noteq> mn \<longrightarrow> field_name g \<noteq> k"
  shows "map_of d' k = map_of d k"
  using assms
  by (auto simp: relation_step_def AList.update_conv'
      split: if_splits option.splits list.splits sum.splits)

lemma fold_relation_step_other:
  "fold (relation_step mdm mn m) fs (Inr d) = Inr d'
   \<Longrightarrow> \<forall>g \<in> set fs. field_kind g = ''object'' \<and> field_type g \<noteq> mn \<longrightarrow> field_name g \<noteq> k
   \<Longrightarrow> map_of d' k = map_of d k"
proof (induction fs arbitrary: d)
  case Nil
  then show ?case by simp
next
  case (Cons g fs)
  show ?case
  proof (cases "relation_step mdm mn m g (Inr d)")
    case (Inl err)
    with Cons.prems(1) show ?thesis
      by (simp add: fold_relation_step_Inl)
  next
    case (Inr d1)
    have "field_kind g = ''object'' \<and> field_type g \<noteq> mn \<longrightarrow> field_name g \<noteq> k"
      using Cons.prems(2) by simp
    with Inr have "map_of d1 k = map_of d k"
      by (rule relation_step_other)
    moreover have "map_of d' k = map_of d1 k"
      using Cons.prems Inr by (intro Cons.IH) simp_all
    ultimately show ?thesis by simp
  qed
qed

lemma fold_scalar_step_other:
  "fold (scalar_step env m) fs (d, w) = (d', w')
   \<Longrightarrow> \<forall>g \<in> set fs. field_kind g = ''scalar'' \<longrightarrow> field_name g \<noteq> k
   \<Longrightarrow> map_of d' k = map_of d k"
proof (induction fs arbitrary: d w)
  case Nil
  then show ?case by simp
next
  case (Cons g fs)
  obtain d1 w1 where s: "scalar_step env m g (d, w) = (d1, w1)"
    by (cases "scalar_step env m g (d, w)")
  have "map_of d1 k = map_of d k"
    using s Cons.prems(2)
    by (auto simp: scalar_step_def AList.update_conv' split: if_splits prod.splits)
  moreover have "map_of d' k = map_of d1 k"
    using Cons.prems s by (intro Cons.IH [of d1 w1]) simp_all
  ultimately show ?case by simp
qed

lemma map_of_connect_fold:
  "map_of (fold (\<lambda>rk c. AList.update rk (get_prop r rk) c) rks c0) k =
     (if k \<in> set rks then Some (get_prop r k) else map_of c0 k)"
  by (induction rks arbitrary: c0) (auto simp: AList.update_conv')

lemma keys_connect_fold:
  "fst ` set (fold (\<lambda>rk c. AList.update rk (get_prop r rk) c) rks c0) = set rks \<union> fst ` set c0"
  by (induction rks arbitrary: c0) (auto simp: AList.dom_update)

lemma relation_step_connect:
  assumes "relation_step mdm mn m f (Inr d) = Inr d'"
    and "field_kind f = ''object''" "\<not> isList f" "field_type f \<noteq> mn"
    and "relationFromFields f = Some relationFrom" "relationFrom \<noteq> []"
    and "map_of mdm (field_type f) = Some target" "createdRecords target = firstRecord # others"
  shows "\<exists>relationTo. relationToFields f = Some relationTo \<and>
           map_of d' (field_name f) =
             Some (JObj [(''connect'',
               JObj (fold (\<lambda>rk c. AList.update rk (get_prop firstRecord rk) c) relationTo []))])"
  using assms
  by (auto simp: relation_step_def connect_to_def AList.update_conv'
      split: list.splits option.splits sum.splits)

lemma same_name_same_field:
  "distinct (map field_name fs) \<Longrightarrow> f \<in> set fs \<Longrightarrow> g \<in> set fs
   \<Longrightarrow> field_name g = field_name f \<Longrightarrow> g = f"
  by (meson distinct_map inj_onD)


lemma buildCreationData_Inr:
  assumes "map_of mdm modelName = Some e"
    and "buildCreationData env mdm modelName w = (Inr data, w')"
  obtains d0 where
    "fold (scalar_step env (entry_model e)) (model_fields (entry_model e)) ([], w) = (d0, w')"
    "fold (relation_step mdm modelName (entry_model e)) (model_fields (entry_model e)) (Inr d0)
       = Inr data"
  using assms
  by (auto simp: buildCreationData_def Let_def split: prod.splits)

text \<open>
  Claim C6: during payload assembly, for every non-list, non-self relation field with a
  non-empty \<open>relationFromFields\<close> whose target type already has a created record, the
  payload sets that field to a connect instruction that maps each name in
  \<open>relationToFields\<close> to the value of that field read from the target type's first
  created record. Field names are the keys of the payload, so the fields of the entity
  descriptor are taken to have pairwise different names, as the schema language demands.
\<close>

theorem buildCreationData_connects_first_record:
  assumes "map_of mdm modelName = Some e"
    and "distinct (map field_name (model_fields (entry_model e)))"
    and "f \<in> set (model_fields (entry_model e))"
    and "field_kind f = ''object''" and "\<not> isList f" and "field_type f \<noteq> modelName"
    and "relationFromFields f = Some relationFrom" and "relationFrom \<noteq> []"
    and "map_of mdm (field_type f) = Some target"
    and "createdRecords target = firstRecord # others"
    and "buildCreationData env mdm modelName w = (Inr data, w')"
  shows "\<exists>relationTo c.
           relationToFields f = Some relationTo \<and>
           map_of data (field_name f) = Some (JObj [(''connect'', JObj c)]) \<and>
           fst ` set c = set relationTo \<and>
           (\<forall>rk \<in> set relationTo. map_of c rk = Some (get_prop firstRecord rk))"
proof -
  let ?m = "entry_model e"
  from assms(1,11) obtain d0 where
    rel: "fold (relation_step mdm modelName ?m) (model_fields ?m) (Inr d0) = Inr data"
    by (rule buildCreationData_Inr)
  from assms(3) obtain pre post where sp: "model_fields ?m = pre @ f # post"
    by (auto dest: split_list)
  have later: "\<forall>g \<in> set post. field_kind g = ''object'' \<and> field_type g \<noteq> modelName
      \<longrightarrow> field_name g \<noteq> field_name f"
    using assms(2) sp by (auto simp: image_iff)
  obtain d1 where d1: "fold (relation_step mdm modelName ?m) pre (Inr d0) = Inr d1"
    using rel sp
    by (cases "fold (relation_step mdm modelName ?m) pre (Inr d0)")
      (simp_all add: fold_relation_step_Inl relation_step_Inl)
  obtain d2 where d2: "relation_step mdm modelName ?m f (Inr d1) = Inr d2"
    using rel sp d1
    by (cases "relation_step mdm modelName ?m f (Inr d1)")
      (simp_all add: fold_relation_step_Inl)
  have d3: "fold (relation_step mdm modelName ?m) post (Inr d2) = Inr data"
    using rel sp d1 d2 by simp
  from relation_step_connect [OF d2 assms(4,5,6,7,8,9,10)] obtain relationTo where
    rt: "relationToFields f = Some relationTo"
    and v: "map_of d2 (field_name f) =
       Some (JObj [(''connect'',
         JObj (fold (\<lambda>rk c. AList.update rk (get_prop firstRecord rk) c) relationTo []))])"
    by blast
  let ?c = "fold (\<lambda>rk c. AList.update rk (get_prop firstRecord rk) c) relationTo []"
  have "map_of data (field_name f) = Some (JObj [(''connect'', JObj ?c)])"
    using fold_relation_step_other [OF d3 later] v by simp
  moreover have "fst ` set ?c = set relationTo"
    by (simp add: keys_connect_fold)
  moreover have "\<forall>rk \<in> set relationTo. map_of ?c rk = Some (get_prop firstRecord rk)"
    by (simp add: map_of_connect_fold)
  ultimately show ?thesis
    using rt by blast
qed

text \<open>
  The statement above for the field \<open>prev\<close> of \<open>T2\<close>, once \<open>T1\<close> has its record: the
  payload connects \<open>prev\<close> by the key \<open>id\<close> of that record.
\<close>

theorem buildCreationData_connects_first_record_witness:
  "map_of
     [(''T2'', \<lparr>entry_model = hd (chain [''T2'', ''T1'']), createdRecords = [], created = False\<rparr>),
      (''T1'', \<lparr>entry_model = hd (chain [''T1'']), createdRecords = [[(''id'', JStr ''T1-id'')]],
         created = True\<rparr>)]
     ''T2'' = Some \<lparr>entry_model = hd (chain [''T2'', ''T1'']), createdRecords = [], created = False\<rparr>
   \<and> distinct (map field_name (model_fields (entry_model \<lparr>entry_model = hd (chain [''T2'', ''T1'']), createdRecords = [], created = False\<rparr>)))
   \<and> relation_field ''prev'' ''T1'' ''prevId'' \<in> set (model_fields (entry_model \<lparr>entry_model = hd (chain [''T2'', ''T1'']), createdRecords = [], created = False\<rparr>))
   \<and> buildCreationData (strict_env (chain [''T2'', ''T1'']))
     [(''T2'', \<lparr>entry_model = hd (chain [''T2'', ''T1'']), createdRecords = [], created = False\<rparr>),
      (''T1'', \<lparr>entry_model = hd (chain [''T1'']), createdRecords = [[(''id'', JStr ''T1-id'')]],
         created = True\<rparr>)]
     ''T2'' 0
     = (Inr [(''id'', JUndefined), (''prev'', JObj [(''connect'', JObj [(''id'', JStr ''T1-id'')])])], 0)
   \<and> (\<exists>relationTo c.
        relationToFields (relation_field ''prev'' ''T1'' ''prevId'') = Some relationTo \<and>
        map_of [(''id'', JUndefined), (''prev'', JObj [(''connect'', JObj [(''id'', JStr ''T1-id'')])])] (field_name (relation_field ''prev'' ''T1'' ''prevId'')) = Some (JObj [(''connect'', JObj c)]) \<and>
        fst ` set c = set relationTo \<and>
        (\<forall>rk \<in> set relationTo. map_of c rk = Some (get_prop [(''id'', JStr ''T1-id'')] rk)))"
proof -
  let ?e2 = "\<lparr>entry_model = hd (chain [''T2'', ''T1'']), createdRecords = [], created = False\<rparr>"
  let ?e1 = "\<lparr>entry_model = hd (chain [''T1'']), createdRecords = [[(''id'', JStr ''T1-id'')]],
         created = True\<rparr>"
  let ?mdm = "[(''T2'', ?e2), (''T1'', ?e1)]"
  let ?f = "relation_field ''prev'' ''T1'' ''prevId''"
  let ?data = "[(''id'', JUndefined), (''prev'', JObj [(''connect'', JObj [(''id'', JStr ''T1-id'')])])]"
  have h1: "map_of ?mdm ''T2'' = Some ?e2"
    by simp
  have h2: "distinct (map field_name (model_fields (entry_model ?e2)))"
    by (simp add: scalar_field_def relation_field_def)
  have h3: "?f \<in> set (model_fields (entry_model ?e2))"
    by simp
  have h4: "field_kind ?f = ''object''" and h5: "\<not> isList ?f" and h6: "field_type ?f \<noteq> ''T2''"
    and h7: "relationFromFields ?f = Some [''prevId'']" and h8: "[''prevId''] \<noteq> []"
    by (simp_all add: relation_field_def)
  have h9: "map_of ?mdm (field_type ?f) = Some ?e1"
    by (simp add: relation_field_def)
  have h10: "createdRecords ?e1 = [(''id'', JStr ''T1-id'')] # []"
    by simp
  have h11: "buildCreationData (strict_env (chain [''T2'', ''T1''])) ?mdm ''T2'' 0 = (Inr ?data, 0)"
    by code_simp
  from buildCreationData_connects_first_record [OF h1 h2 h3 h4 h5 h6 h7 h8 h9 h10 h11]
  show ?thesis
    using h1 h2 h3 h11 by blast
qed

subsection \<open>Self-relation fields in the payload\<close>

lemma relation_step_v3_Inl: "relation_step_v3 mdm m f (Inl err) = Inl err"
  by (simp add: relation_step_v3_def)

lemma fold_relation_step_v3_Inl: "fold (relation_step_v3 mdm m) fs (Inl err) = Inl err"
  by (induction fs) (simp_all add: relation_step_v3_Inl)

lemma relation_step_v3_unset:
  assumes "relation_step_v3 mdm m g (Inr d) = Inr d'"
    and "field_kind g = ''object'' \<and> field_name g = k \<longrightarrow> field_type g = mn"
    and "map_of mdm mn = Some e" and "createdRecords e = []"
    and "unset (map_of d k)"
  shows "unset (map_of d' k)"
  using assms
  by (auto simp: relation_step_v3_def unset_def AList.update_conv'
      split: if_splits option.splits list.splits sum.splits)

lemma fold_relation_step_v3_unset:
  "fold (relation_step_v3 mdm m) fs (Inr d) = Inr d'
   \<Longrightarrow> \<forall>g \<in> set fs. field_kind g = ''object'' \<and> field_name g = k \<longrightarrow> field_type g = mn
   \<Longrightarrow> map_of mdm mn = Some e \<Longrightarrow> createdRecords e = []
   \<Longrightarrow> unset (map_of d k) \<Longrightarrow> unset (map_of d' k)"
proof (induction fs arbitrary: d)
  case Nil
  then show ?case by simp
next
  case (Cons g fs)
  show ?case
  proof (cases "relation_step_v3 mdm m g (Inr d)")
    case (Inl err)
    with Cons.prems(1) show ?thesis
      by (simp add: fold_relation_step_v3_Inl)
  next
    case (Inr d1)
    have "field_kind g = ''object'' \<and> field_name g = k \<longrightarrow> field_type g = mn"
      using Cons.prems(2) by simp
    with Inr have "unset (map_of d1 k)"
      using Cons.prems(3,4,5) by (rule relation_step_v3_unset)
    moreover have "fold (relation_step_v3 mdm m) fs (Inr d1) = Inr d'"
      using Cons.prems(1) Inr by simp
    moreover have "\<forall>g \<in> set fs. field_kind g = ''object'' \<and> field_name g = k \<longrightarrow> field_type g = mn"
      using Cons.prems(2) by simp
    ultimately show ?thesis
      using Cons.prems(3,4) by (intro Cons.IH [of d1]) 
  qed
qed

lemma fold_scalar_step_v3_other:
  "fold (scalar_step_v3 env) fs (d, w) = (d', w')
   \<Longrightarrow> \<forall>g \<in> set fs. field_kind g = ''scalar'' \<longrightarrow> field_name g \<noteq> k
   \<Longrightarrow> map_of d' k = map_of d k"
proof (induction fs arbitrary: d w)
  case Nil
  then show ?case by simp
next
  case (Cons g fs)
  obtain d1 w1 where s: "scalar_step_v3 env g (d, w) = (d1, w1)"
    by (cases "scalar_step_v3 env g (d, w)")
  have "map_of d1 k = map_of d k"
    using s Cons.prems(2)
    by (auto simp: scalar_step_v3_def AList.update_conv' split: if_splits prod.splits)
  moreover have "map_of d' k = map_of d1 k"
    using Cons.prems s by (intro Cons.IH [of d1 w1]) simp_all
  ultimately show ?case by simp
qed

text \<open>
  Claim C7: the payload built for an attempt of the main pass loop assigns no connect
  instruction to a relation field whose target type is the owning type.
  \<open>buildCreationData\<close> passes over such a field, so the payload has no entry for it.
  The earlier variant \<open>payload_v3\<close> has no such test, but the pass loop attempts a type
  only while it has no record (the run-state invariant above), and then the field is
  set to \<^verbatim>\<open>undefined\<close>, never to a connect instruction.
\<close>

theorem payload_skips_self_relation:
  assumes "map_of mdm modelName = Some e"
    and "distinct (map field_name (model_fields (entry_model e)))"
    and "f \<in> set (model_fields (entry_model e))"
    and "field_kind f = ''object''" and "field_type f = modelName"
  shows "(buildCreationData env mdm modelName w = (Inr data, w')
            \<longrightarrow> map_of data (field_name f) = None)
       \<and> (createdRecords e = [] \<longrightarrow> payload_v3 env mdm modelName w = (Inr data3, w3)
            \<longrightarrow> unset (map_of data3 (field_name f)))"
proof (intro conjI impI)
  let ?m = "entry_model e"
  have same: "g = f" if "g \<in> set (model_fields ?m)" "field_name g = field_name f" for g
    using assms(2,3) that by (rule same_name_same_field)
  have sc: "\<forall>g \<in> set (model_fields ?m). field_kind g = ''scalar'' \<longrightarrow> field_name g \<noteq> field_name f"
    using same assms(4) by fastforce
  show "map_of data (field_name f) = None"
    if b: "buildCreationData env mdm modelName w = (Inr data, w')"
  proof -
    from assms(1) b obtain d0 where
      s: "fold (scalar_step env ?m) (model_fields ?m) ([], w) = (d0, w')"
      and r: "fold (relation_step mdm modelName ?m) (model_fields ?m) (Inr d0) = Inr data"
      by (rule buildCreationData_Inr)
    have ob: "\<forall>g \<in> set (model_fields ?m).
        field_kind g = ''object'' \<and> field_type g \<noteq> modelName \<longrightarrow> field_name g \<noteq> field_name f"
      using same assms(5) by fastforce
    have "map_of d0 (field_name f) = map_of [] (field_name f)"
      using s sc by (rule fold_scalar_step_other)
    moreover have "map_of data (field_name f) = map_of d0 (field_name f)"
      using r ob by (rule fold_relation_step_other)
    ultimately show ?thesis by simp
  qed
  show "unset (map_of data3 (field_name f))"
    if c: "createdRecords e = []" and b: "payload_v3 env mdm modelName w = (Inr data3, w3)"
  proof -
    from assms(1) b obtain d0 where
      s: "fold (scalar_step_v3 env) (model_fields ?m) ([], w) = (d0, w3)"
      and r: "fold (relation_step_v3 mdm ?m) (model_fields ?m) (Inr d0) = Inr data3"
      by (auto simp: payload_v3_def Let_def split: prod.splits)
    have ob: "\<forall>g \<in> set (model_fields ?m).
        field_kind g = ''object'' \<and> field_name g = field_name f \<longrightarrow> field_type g = modelName"
      using same assms(5) by fastforce
    have "map_of d0 (field_name f) = map_of [] (field_name f)"
      using s sc by (rule fold_scalar_step_v3_other)
    then have "unset (map_of d0 (field_name f))"
      by (simp add: unset_def)
    with r ob assms(1) c show ?thesis
      by (rule fold_relation_step_v3_unset)
  qed
qed

text \<open>
  The statement above for the field \<open>parent\<close> of a type \<open>Category\<close> that refers to
  itself, in the fresh run state.
\<close>

theorem payload_skips_self_relation_witness:
  "map_of
    [(''Category'',
     \<lparr>entry_model =
       \<lparr>model_name = ''Category'',
        model_fields = [scalar_field ''id'' ''String'' True,
                        scalar_field ''parentId'' ''String'' False,
                        relation_field ''parent'' ''Category'' ''parentId'']\<rparr>,
      createdRecords = [], created = False\<rparr>)]
    ''Category'' = Some
     \<lparr>entry_model =
       \<lparr>model_name = ''Category'',
        model_fields = [scalar_field ''id'' ''String'' True,
                        scalar_field ''parentId'' ''String'' False,
                        relation_field ''parent'' ''Category'' ''parentId'']\<rparr>,
      createdRecords = [], created = False\<rparr>
   \<and> distinct (map field_name (model_fields (entry_model
     \<lparr>entry_model =
       \<lparr>model_name = ''Category'',
        model_fields = [scalar_field ''id'' ''String'' True,
                        scalar_field ''parentId'' ''String'' False,
                        relation_field ''parent'' ''Category'' ''parentId'']\<rparr>,
      createdRecords = [], created = False\<rparr>)))
   \<and> relation_field ''parent'' ''Category'' ''parentId'' \<in> set (model_fields (entry_model
     \<lparr>entry_model =
       \<lparr>model_name = ''Category'',
        model_fields = [scalar_field ''id'' ''String'' True,
                        scalar_field ''parentId'' ''String'' False,
                        relation_field ''parent'' ''Category'' ''parentId'']\<rparr>,
      createdRecords = [], created = False\<rparr>))
   \<and> field_type (relation_field ''parent'' ''Category'' ''parentId'') = ''Category''
   \<and> buildCreationData (strict_env [])
    [(''Category'',
     \<lparr>entry_model =
       \<lparr>model_name = ''Category'',
        model_fields = [scalar_field ''id'' ''String'' True,
                        scalar_field ''parentId'' ''String'' False,
                        relation_field ''parent'' ''Category'' ''parentId'']\<rparr>,
      createdRecords = [], created = False\<rparr>)]
    ''Category'' 0 = (Inr [(''id'', JUndefined)], 0)
   \<and> map_of [(''id'', JUndefined)] (field_name (relation_field ''parent'' ''Category'' ''parentId'')) = None
   \<and> payload_v3 (strict_env [])
    [(''Category'',
     \<lparr>entry_model =
       \<lparr>model_name = ''Category'',
        model_fields = [scalar_field ''id'' ''String'' True,
                        scalar_field ''parentId'' ''String'' False,
                        relation_field ''parent'' ''Category'' ''parentId'']\<rparr>,
      createdRecords = [], created = False\<rparr>)]
    ''Category'' 0 = (Inr [(''id'', JUndefined), (''parentId'', JStr ''fake_parentId''), (''parent'', JUndefined)], 0)
   \<and> unset (map_of [(''id'', JUndefined), (''parentId'', JStr ''fake_parentId''), (''parent'', JUndefined)] (field_name (relation_field ''parent'' ''Category'' ''parentId'')))"
proof -
  let ?e = "\<lparr>entry_model =
       \<lparr>model_name = ''Category'',
        model_fields = [scalar_field ''id'' ''String'' True,
                        scalar_field ''parentId'' ''String'' False,
                        relation_field ''parent'' ''Category'' ''parentId'']\<rparr>,
      createdRecords = [], created = False\<rparr>"
  let ?mdm = "[(''Category'', ?e)]"
  let ?f = "relation_field ''parent'' ''Category'' ''parentId''"
  have h1: "map_of ?mdm ''Category'' = Some ?e"
    by simp
  have h2: "distinct (map field_name (model_fields (entry_model ?e)))"
    by (simp add: scalar_field_def relation_field_def)
  have h3: "?f \<in> set (model_fields (entry_model ?e))"
    by simp
  have h4: "field_kind ?f = ''object''" and h5: "field_type ?f = ''Category''"
    by (simp_all add: relation_field_def)
  have b1: "buildCreationData (strict_env []) ?mdm ''Category'' 0 = (Inr [(''id'', JUndefined)], 0)"
    by code_simp
  have b3: "payload_v3 (strict_env []) ?mdm ''Category'' 0 = (Inr [(''id'', JUndefined), (''parentId'', JStr ''fake_parentId''), (''parent'', JUndefined)], 0)"
    by code_simp
  have c: "createdRecords ?e = []"
    by simp
  from payload_skips_self_relation [OF h1 h2 h3 h4 h5, of "strict_env []" 0 "[(''id'', JUndefined)]" 0 "[(''id'', JUndefined), (''parentId'', JStr ''fake_parentId''), (''parent'', JUndefined)]" 0]
  show ?thesis
    using h1 h2 h3 h5 b1 b3 c by blast
qed

section \<open>Required-dependency chains\<close>

subsection \<open>One attempt and one pass, seen through the set of created types\<close>

text \<open>
  For a schema whose required fields can all be filled (\<open>link_ok\<close>) and a store that is
  exact for them, the payload holds a connect instruction for a required field exactly
  when the targeted type has a record (\<open>payload_link\<close>), so an attempt creates a record
  exactly when the type is ready (\<open>attempt_abs\<close>). A pass over names that are ready in
  order creates them all (\<open>fold_attempt_in_order\<close>), and a pass over names none of
  which is ready creates nothing (\<open>fold_attempt_blocked\<close>).
\<close>

lemma is_connect_simps [simp]:
  "is_connect None = False" "is_connect (Some JUndefined) = False"
  "is_connect (Some (JObj [(''connect'', JObj c)])) = True"
  by (simp_all add: is_connect_def)














subsection \<open>Chain schemas\<close>

lemma depth_of_le: "depth_of ns x \<le> length ns"
  by (induction ns) auto

lemma depth_of_pos: "x \<in> set ns \<Longrightarrow> 0 < depth_of ns x"
  by (induction ns) auto




subsection \<open>Chains the graph builder sees\<close>








subsection \<open>Chains the graph builder does not see\<close>















subsection \<open>The example collaborators are exact\<close>





subsection \<open>Depth 5 and depth 6 with five passes\<close>




section \<open>Properties of the entry operation\<close>

text \<open>
  Claim C9: \<open>generateSeedData\<close> releases the persistence client on every exit path.
  Whatever the \<^verbatim>\<open>try\<close> block does (it completes, the pass loop ends early, or an
  exception such as a schema-load failure leaves it), the disconnect is applied to the
  world the block leaves behind, before the entry operation returns or rethrows; the
  outcome is the block's own, unless the disconnect itself fails.
\<close>

theorem generateSeedData_releases_client:
  "\<exists>r w1 d w2.
     seed_body env seedPath w = (r, w1) \<and> disconnect_op env w1 = (d, w2) \<and>
     generateSeedData env seedPath w =
       (case d of
          Inl err \<Rightarrow> Inl err
        | Inr u \<Rightarrow> (case r of Inl err \<Rightarrow> Inl err | Inr mdm \<Rightarrow> Inr ()), w2) \<and>
     (\<forall>err w'. load_op env seedPath w = (Inl err, w') \<longrightarrow> r = Inl err \<and> w1 = w')"
proof -
  obtain r w1 where b: "seed_body env seedPath w = (r, w1)"
    by (cases "seed_body env seedPath w")
  obtain d w2 where d: "disconnect_op env w1 = (d, w2)"
    by (cases "disconnect_op env w1")
  have "generateSeedData env seedPath w =
       (case d of
          Inl err \<Rightarrow> Inl err
        | Inr u \<Rightarrow> (case r of Inl err \<Rightarrow> Inl err | Inr mdm \<Rightarrow> Inr ()), w2)"
    using b d by (simp add: generateSeedData_def split: sum.splits)
  moreover have "\<forall>err w'. load_op env seedPath w = (Inl err, w') \<longrightarrow> r = Inl err \<and> w1 = w'"
    using b by (auto simp: seed_body_def)
  ultimately show ?thesis
    using b d by blast
qed

text \<open>
  The statement above with the logging collaborator: when the schema cannot be loaded the
  error is rethrown after the disconnect, and a run over the chain \<open>T2\<close> requires \<open>T1\<close>
  ends with the disconnect as well.
\<close>

theorem generateSeedData_releases_client_witness:
  "load_op (logging_env (Inl (Failure ''unreadable schema''))) ''schema.prisma'' []
     = (Inl (Failure ''unreadable schema''), [''load''])
   \<and> generateSeedData (logging_env (Inl (Failure ''unreadable schema''))) ''schema.prisma'' []
     = (Inl (Failure ''unreadable schema''), [''load'', ''disconnect''])
   \<and> generateSeedData (logging_env (Inr (chain [''T2'', ''T1'']))) ''schema.prisma'' []
     = (Inr (), [''load'', ''create'', ''create'', ''disconnect''])"
proof -
  let ?env = "logging_env (Inl (Failure ''unreadable schema''))"
  have l: "load_op ?env ''schema.prisma'' [] = (Inl (Failure ''unreadable schema''), [''load''])"
    by (simp add: logging_env_def)
  have dis: "\<And>w. disconnect_op ?env w = (Inr (), w @ [''disconnect''])"
    by (simp add: logging_env_def)
  have ok: "generateSeedData (logging_env (Inr (chain [''T2'', ''T1'']))) ''schema.prisma'' []
     = (Inr (), [''load'', ''create'', ''create'', ''disconnect''])"
    by code_simp
  from generateSeedData_releases_client [of ?env "''schema.prisma''" "[]"]
  obtain r :: "error + modelDataMap" and w1 d w2 where
    "disconnect_op ?env w1 = (d, w2)"
    "generateSeedData ?env ''schema.prisma'' [] =
       (case d of
          Inl err \<Rightarrow> Inl err
        | Inr u \<Rightarrow> (case r of Inl err \<Rightarrow> Inl err | Inr mdm \<Rightarrow> Inr ()), w2)"
    "r = Inl (Failure ''unreadable schema'') \<and> w1 = [''load'']"
    using l by blast
  then show ?thesis
    using l ok by (auto simp: dis)
qed

end
